theory Spec2Isabelle
  imports Main "HOL-Library.Word"
begin

section \<open>The turbo session (session.go): data model\<close>

text \<open>
  The file embeds \<^verbatim>\<open>vendor/github.com/blackbeans/turbo/session/session.go\<close>.
  Go's multiple results \<^verbatim>\<open>(v, err)\<close> are pairs whose second component is an
  \<open>error option\<close> (\<open>None\<close> is \<^verbatim>\<open>nil\<close>); a run-time panic and a goroutine that
  stays suspended on a channel are constructors of \<open>outcome\<close>; every method takes the
  session and returns the session it leaves behind.
\<close>

type_synonym byte = "8 word"

text \<open>Instants are nanoseconds counted from Go's zero \<^verbatim>\<open>time.Time\<close>.\<close>

type_synonym time = int

datatype error =
    EOF
  | ErrShortWrite
  | ErrNetClosing
  | ErrNew string

datatype panic =
    NilDereference
  | CloseOfClosedChannel
  | SendOnClosedChannel
  | MakeSliceLenOutOfRange
  | MakeChanSizeOutOfRange
  | SliceBoundsOutOfRange

datatype 'a outcome = Ret 'a | Panic panic | Blocked

subsection \<open>Packets, codec and the constants of package packet\<close>

text \<open>
  Package \<^verbatim>\<open>packet\<close> and the codec are not part of the embedded file. The session reads
  one header field, \<^verbatim>\<open>BodyLen\<close> (an \<^verbatim>\<open>int32\<close>: it is passed to \<^verbatim>\<open>Incr\<close> together
  with \<^verbatim>\<open>int32(len(tlv))\<close> and converted by \<^verbatim>\<open>int(head.BodyLen)\<close>), and builds a
  packet from \<^verbatim>\<open>Header\<close> and \<^verbatim>\<open>Data\<close>. The two constants, the header decoder and the
  codec's two methods are parameters of the model.
\<close>

record packet_header =
  BodyLen :: "32 word"

record packet =
  Header :: packet_header
  Data :: "byte list"

record packet_pkg =
  PACKET_HEAD_LEN :: int
  MAX_PACKET_BYTES :: int
  UnmarshalHeader :: "byte list \<Rightarrow> packet_header \<times> error option"

record codec =
  UnmarshalPacket :: "packet \<Rightarrow> packet option \<times> error option"
  MarshalPacket :: "packet \<Rightarrow> byte list \<times> error option"

subsection \<open>Configuration and flow statistics\<close>

text \<open>
  \<^verbatim>\<open>rc.FlowStat\<close> is a pointer (the code compares it with \<^verbatim>\<open>nil\<close>): \<open>None\<close> is the nil
  pointer. Each counter is an \<^verbatim>\<open>int32\<close> that \<^verbatim>\<open>Incr\<close> adds to, wrapping around.
\<close>

record remoting_flow =
  Connections :: "32 word"
  ReadFlow :: "32 word"
  ReadBytesFlow :: "32 word"
  WriteFlow :: "32 word"
  WriteBytesFlow :: "32 word"

definition Incr :: "32 word \<Rightarrow> 32 word \<Rightarrow> 32 word" where
  "Incr c n = c + n"

record remoting_config =
  FlowStat :: "remoting_flow option"
  IdleTime :: "64 word"
  ReadBufferSize :: int
  WriteBufferSize :: int
  ReadChannelSize :: int
  WriteChannelSize :: int

subsection \<open>Buffered channels\<close>

record 'a chan =
  ch_buf :: "'a list"
  ch_cap :: nat
  ch_closed :: bool

text \<open>
  \<^verbatim>\<open>make(chan *packet.Packet, n)\<close> panics (``makechan: size out of range'') when \<open>n\<close> is
  negative and when the \<open>n\<close> slots of one pointer each do not fit what the allocator can
  hand out: on a 64-bit platform \<open>8 * n\<close> may not exceed \<open>2^48\<close> bytes less the 96 bytes
  of the channel header.
\<close>

definition max_chan_size :: int where
  "max_chan_size = (2 ^ 48 - 96) div 8"

definition make_chan :: "int \<Rightarrow> 'a chan outcome" where
  "make_chan n =
     (if n < 0 \<or> max_chan_size < n then Panic MakeChanSizeOutOfRange
      else Ret \<lparr>ch_buf = [], ch_cap = nat n, ch_closed = False\<rparr>)"

subsection \<open>The connection and the two bufio layers\<close>

text \<open>
  The connection is an external collaborator. Its read side is the list of what the
  coming reads of the connection deliver: each entry holds the bytes that arrive and the
  error the read reports (if any); when the list is used up the peer has closed and a
  read reports \<^verbatim>\<open>io.EOF\<close>. A \<^verbatim>\<open>*net.TCPConn\<close> reports an error without bytes: its
  entries are \<open>(bs, None)\<close> and \<open>([], Some e)\<close>. Its write side is the bytes transmitted so
  far (\<open>wire\<close>) and the list of how the coming calls of \<^verbatim>\<open>conn.Write\<close> end: how many bytes
  at most are taken and which error is reported; when that list is used up every write is
  taken whole.
\<close>

record conn =
  remote :: string
  rstream :: "(byte list \<times> error option) list"
  wire :: "byte list"
  wscript :: "(nat \<times> error option) list"
  conn_closed :: bool

text \<open>
  \<^verbatim>\<open>br.Read(p)\<close> with \<open>k = len(p)\<close>. A read into an empty slice returns \<open>(0, nil)\<close> and
  leaves the input as it is: it does not touch the connection, so it meets neither the
  end of the input nor an error that waits there. Otherwise the call hands out at most
  \<open>k\<close> bytes of what one read of the connection delivers, and what does not fit stays
  for the next call. An entry's error is reported by the call that takes the last of the
  entry's bytes, as \<^verbatim>\<open>bufio.Reader\<close> does when it reads straight into \<open>p\<close>; \<^verbatim>\<open>read0\<close>
  drops what it has read when it sees an error (lines 132-135). For the entries of a
  \<^verbatim>\<open>*net.TCPConn\<close>, whose errors come without bytes, this is also what a read through
  the buffer of \<^verbatim>\<open>bufio.Reader\<close> returns; the buffer itself is not modelled.
\<close>

fun br_Read :: "(byte list \<times> error option) list \<Rightarrow> nat \<Rightarrow>
    (byte list \<times> error option) \<times> (byte list \<times> error option) list" where
  "br_Read [] k = (if k = 0 then (([], None), []) else (([], Some EOF), []))"
| "br_Read ((bs, eo) # rest) k =
     (if k = 0 then (([], None), (bs, eo) # rest)
      else if length bs \<le> k then ((bs, eo), rest)
      else ((take k bs, None), (drop k bs, eo) # rest))"

definition conn_Write :: "conn \<Rightarrow> byte list \<Rightarrow> (nat \<times> error option) \<times> conn" where
  "conn_Write c p =
     (if conn_closed c then ((0, Some ErrNetClosing), c)
      else case wscript c of
        [] \<Rightarrow> ((length p, None), c\<lparr>wire := wire c @ p\<rparr>)
      | (n, eo) # rest \<Rightarrow>
          ((min n (length p), eo),
           c\<lparr>wire := wire c @ take (min n (length p)) p, wscript := rest\<rparr>))"

text \<open>
  \<^verbatim>\<open>bufio.Writer\<close>, from its documented behaviour: \<open>bw_buf\<close> holds the \<^verbatim>\<open>b.n\<close> buffered
  bytes, \<open>bw_size\<close> is \<^verbatim>\<open>len(b.buf)\<close>, \<open>bw_err\<close> the sticky error. \<^verbatim>\<open>Flush\<close> hands the buffer
  to the connection and turns a short write without error into \<^verbatim>\<open>io.ErrShortWrite\<close>;
  \<^verbatim>\<open>Write\<close> flushes a full buffer and writes directly when the buffer is empty and the
  data does not fit; \<^verbatim>\<open>Reset\<close> discards unflushed data and clears the error.
\<close>

record bufio_Writer =
  bw_err :: "error option"
  bw_buf :: "byte list"
  bw_size :: nat

definition NewWriterSize :: "int \<Rightarrow> bufio_Writer" where
  "NewWriterSize n =
     \<lparr>bw_err = None, bw_buf = [], bw_size = (if n \<le> 0 then 4096 else nat n)\<rparr>"

definition Available :: "bufio_Writer \<Rightarrow> nat" where
  "Available b = bw_size b - length (bw_buf b)"

definition bw_Flush :: "bufio_Writer \<times> conn \<Rightarrow> error option \<times> bufio_Writer \<times> conn" where
  "bw_Flush bc =
     (let b = fst bc; c = snd bc in
      if bw_err b \<noteq> None then (bw_err b, b, c)
      else if bw_buf b = [] then (None, b, c)
      else
        let r = conn_Write c (bw_buf b);
            n = fst (fst r);
            err = (if n < length (bw_buf b) \<and> snd (fst r) = None
                   then Some ErrShortWrite else snd (fst r))
        in if err \<noteq> None
           then (err, b\<lparr>bw_buf := drop n (bw_buf b), bw_err := err\<rparr>, snd r)
           else (None, b\<lparr>bw_buf := []\<rparr>, snd r))"

definition bw_Reset :: "bufio_Writer \<Rightarrow> bufio_Writer" where
  "bw_Reset b = b\<lparr>bw_err := None, bw_buf := []\<rparr>"

function bw_Write_loop ::
    "bufio_Writer \<Rightarrow> conn \<Rightarrow> byte list \<Rightarrow> nat \<Rightarrow> (nat \<times> error option) \<times> bufio_Writer \<times> conn" where
  "bw_Write_loop b c p nn =
     (if length p > Available b \<and> bw_err b = None then
        (if bw_buf b = [] then
           bw_Write_loop (b\<lparr>bw_err := snd (fst (conn_Write c p))\<rparr>) (snd (conn_Write c p))
             (drop (fst (fst (conn_Write c p))) p) (nn + fst (fst (conn_Write c p)))
         else
           bw_Write_loop
             (fst (snd (bw_Flush (b\<lparr>bw_buf := bw_buf b @ take (Available b) p\<rparr>, c))))
             (snd (snd (bw_Flush (b\<lparr>bw_buf := bw_buf b @ take (Available b) p\<rparr>, c))))
             (drop (Available b) p) (nn + Available b))
      else if bw_err b \<noteq> None then ((nn, bw_err b), b, c)
      else ((nn + length p, None), b\<lparr>bw_buf := bw_buf b @ p\<rparr>, c))"
  by pat_completeness auto
termination
proof (relation "measures
    [\<lambda>(b, c, p, nn). length (wscript c),
     \<lambda>(b, c, p, nn). (if bw_err b = None then 1 else 0),
     \<lambda>(b, c, p, nn). (if bw_buf b = [] then 0 else 1),
     \<lambda>(b, c, p, nn). length p]", goal_cases)
  case 1
  show ?case by simp
next
  case (2 b c p nn)
  then show ?case
    by (auto simp: conn_Write_def split: list.splits if_splits)
next
  case (3 b c p nn)
  then show ?case
    by (auto simp: bw_Flush_def Let_def conn_Write_def split: list.splits if_splits)
qed

declare bw_Write_loop.simps [simp del]

definition bw_Write :: "bufio_Writer \<times> conn \<Rightarrow> byte list \<Rightarrow> (nat \<times> error option) \<times> bufio_Writer \<times> conn" where
  "bw_Write bc p = bw_Write_loop (fst bc) (snd bc) p 0"

section \<open>The session\<close>

text \<open>
  The struct \<^verbatim>\<open>Session\<close>. The unread input of \<^verbatim>\<open>br\<close> is \<open>rstream\<close> of the connection;
  \<open>rc\<close> stands for the configuration the pointer \<^verbatim>\<open>rc\<close> refers to, with its counters.
  Channel elements are \<^verbatim>\<open>*packet.Packet\<close>: \<open>None\<close> is the nil pointer.
\<close>

record session =
  conn :: conn
  remoteAddr :: string
  bw :: bufio_Writer
  ReadChannel :: "packet option chan"
  WriteChannel :: "packet option chan"
  isClose :: bool
  lasttime :: time
  rc :: remoting_config
  frameCodec :: codec

text \<open>
  \<^verbatim>\<open>NewSession\<close> (lines 32-55). The socket options do not change what the model observes.
  \<^verbatim>\<open>lasttime\<close> is not initialised, so it is the zero time. Line 53 dereferences
  \<^verbatim>\<open>rc.FlowStat\<close> without a nil check.
\<close>

definition NewSession :: "conn \<Rightarrow> remoting_config \<Rightarrow> codec \<Rightarrow> session outcome" where
  "NewSession cn cfg fc =
     (case make_chan (ReadChannelSize cfg) of
        Panic e \<Rightarrow> Panic e
      | Blocked \<Rightarrow> Blocked
      | Ret rch \<Rightarrow>
         (case make_chan (WriteChannelSize cfg) of
            Panic e \<Rightarrow> Panic e
          | Blocked \<Rightarrow> Blocked
          | Ret wch \<Rightarrow>
             (case FlowStat cfg of
                None \<Rightarrow> Panic NilDereference
              | Some fs \<Rightarrow>
                  Ret \<lparr>conn = cn,
                       remoteAddr = remote cn,
                       bw = NewWriterSize (WriteBufferSize cfg),
                       ReadChannel = rch,
                       WriteChannel = wch,
                       isClose = False,
                       lasttime = 0,
                       rc = cfg\<lparr>FlowStat := Some (fs\<lparr>Connections := Incr (Connections fs) 1\<rparr>)\<rparr>,
                       frameCodec = fc\<rparr>)))"

definition RemotingAddr :: "session \<Rightarrow> string" where
  "RemotingAddr s = remoteAddr s"

text \<open>
  \<^verbatim>\<open>Idle\<close> (lines 61-64); \<open>now\<close> is what \<^verbatim>\<open>time.Now()\<close> returns. \<^verbatim>\<open>IdleTime\<close> is a
  \<^verbatim>\<open>time.Duration\<close>, a signed 64-bit count of nanoseconds.
\<close>

definition Idle :: "time \<Rightarrow> session \<Rightarrow> bool" where
  "Idle now s = (now > lasttime s + sint (IdleTime (rc s)))"

definition Closed :: "session \<Rightarrow> bool" where
  "Closed s = isClose s"

text \<open>
  \<^verbatim>\<open>Close\<close> (lines 259-273). The error of \<^verbatim>\<open>bw.Flush()\<close> and of \<^verbatim>\<open>conn.Close()\<close> is
  dropped; closing a closed channel panics; line 268 dereferences \<^verbatim>\<open>rc.FlowStat\<close>
  without a nil check. The returned error is always nil.
\<close>

definition Close :: "session \<Rightarrow> error option outcome \<times> session" where
  "Close s =
     (if \<not> isClose s then
        let s1 = s\<lparr>isClose := True\<rparr>;
            fl = bw_Flush (bw s1, conn s1);
            s2 = s1\<lparr>bw := fst (snd fl), conn := (snd (snd fl))\<lparr>conn_closed := True\<rparr>\<rparr>
        in if ch_closed (WriteChannel s2) then (Panic CloseOfClosedChannel, s2)
           else
             let s3 = s2\<lparr>WriteChannel := (WriteChannel s2)\<lparr>ch_closed := True\<rparr>\<rparr>
             in if ch_closed (ReadChannel s3) then (Panic CloseOfClosedChannel, s3)
                else
                  let s4 = s3\<lparr>ReadChannel := (ReadChannel s3)\<lparr>ch_closed := True\<rparr>\<rparr>
                  in case FlowStat (rc s4) of
                       None \<Rightarrow> (Panic NilDereference, s4)
                     | Some fs \<Rightarrow>
                         (Ret None,
                          s4\<lparr>rc := (rc s4)\<lparr>FlowStat :=
                                 Some (fs\<lparr>Connections := Incr (Connections fs) (- 1)\<rparr>)\<rparr>\<rparr>)
      else (Ret None, s))"

text \<open>
  \<^verbatim>\<open>Close\<close> statement by statement. \<^verbatim>\<open>isClose\<close> is a plain \<^verbatim>\<open>bool\<close> field (line 26) and
  the file holds no lock and no atomic operation, so callers of \<^verbatim>\<open>Close\<close> on one session
  share the state and their statements may alternate. A caller is at one of these
  points: before the test of line 261, before one of the statements of lines 262-268, or
  it has returned or panicked. \<open>Close_step\<close> runs the statement a caller is at, as one
  step; \<open>Close_run\<close> lets one caller take \<open>n\<close> steps; \<open>Close_sched\<close> lets several callers
  take steps in the order a schedule names them (a caller is its index in the list).
  Seven steps are the whole of \<^verbatim>\<open>Close\<close>.
\<close>

datatype close_pc =
    AtGuard
  | AtSetFlag
  | AtFlush
  | AtConnClose
  | AtCloseWrite
  | AtCloseRead
  | AtIncr
  | Returned
  | Panicked panic

fun Close_step :: "close_pc \<Rightarrow> session \<Rightarrow> close_pc \<times> session" where
  "Close_step AtGuard s = (if \<not> isClose s then (AtSetFlag, s) else (Returned, s))"
| "Close_step AtSetFlag s = (AtFlush, s\<lparr>isClose := True\<rparr>)"
| "Close_step AtFlush s =
     (case bw_Flush (bw s, conn s) of
        (err, b, c) \<Rightarrow> (AtConnClose, s\<lparr>bw := b, conn := c\<rparr>))"
| "Close_step AtConnClose s = (AtCloseWrite, s\<lparr>conn := (conn s)\<lparr>conn_closed := True\<rparr>\<rparr>)"
| "Close_step AtCloseWrite s =
     (if ch_closed (WriteChannel s) then (Panicked CloseOfClosedChannel, s)
      else (AtCloseRead, s\<lparr>WriteChannel := (WriteChannel s)\<lparr>ch_closed := True\<rparr>\<rparr>))"
| "Close_step AtCloseRead s =
     (if ch_closed (ReadChannel s) then (Panicked CloseOfClosedChannel, s)
      else (AtIncr, s\<lparr>ReadChannel := (ReadChannel s)\<lparr>ch_closed := True\<rparr>\<rparr>))"
| "Close_step AtIncr s =
     (case FlowStat (rc s) of
        None \<Rightarrow> (Panicked NilDereference, s)
      | Some fs \<Rightarrow>
          (Returned,
           s\<lparr>rc := (rc s)\<lparr>FlowStat := Some (fs\<lparr>Connections := Incr (Connections fs) (- 1)\<rparr>)\<rparr>\<rparr>))"
| "Close_step Returned s = (Returned, s)"
| "Close_step (Panicked q) s = (Panicked q, s)"

fun Close_run :: "nat \<Rightarrow> close_pc \<Rightarrow> session \<Rightarrow> close_pc \<times> session" where
  "Close_run 0 pc s = (pc, s)"
| "Close_run (Suc n) pc s = (case Close_step pc s of (pc', s') \<Rightarrow> Close_run n pc' s')"

fun Close_sched :: "nat list \<Rightarrow> close_pc list \<times> session \<Rightarrow> close_pc list \<times> session" where
  "Close_sched [] st = st"
| "Close_sched (i # sched) (pcs, s) =
     (if i < length pcs
      then (case Close_step (pcs ! i) s of (pc', s') \<Rightarrow> Close_sched sched (pcs[i := pc'], s'))
      else Close_sched sched (pcs, s))"

definition close_pc_of :: "error option outcome \<Rightarrow> close_pc" where
  "close_pc_of r = (case r of Panic q \<Rightarrow> Panicked q | _ \<Rightarrow> Returned)"

text \<open>
  \<^verbatim>\<open>Write\<close> (lines 147-163): a \<^verbatim>\<open>select\<close> with a \<^verbatim>\<open>default\<close> case never suspends. A send
  on a closed channel panics; the deferred \<^verbatim>\<open>recover\<close> swallows the panic and the
  function returns the zero value of its unnamed result, nil.
\<close>

definition Write :: "session \<Rightarrow> packet option \<Rightarrow> error option \<times> session" where
  "Write s p =
     (if \<not> isClose s then
        (if ch_closed (WriteChannel s) then (None, s)
         else if length (ch_buf (WriteChannel s)) < ch_cap (WriteChannel s)
         then (None,
               s\<lparr>WriteChannel := (WriteChannel s)\<lparr>ch_buf := ch_buf (WriteChannel s) @ [p]\<rparr>\<rparr>)
         else (Some (ErrNew (''WRITE CHANNLE ['' @ remoteAddr s @ ''] FULL'')), s))
      else (Some (ErrNew (''Session|['' @ remoteAddr s @ '']|CLOSED'')), s))"

section \<open>Reading\<close>

text \<open>
  \<^verbatim>\<open>read0\<close> (lines 126-144). \<^verbatim>\<open>make([]byte, len)\<close> panics for a negative length. The loop
  reads into \<^verbatim>\<open>buff[idx:]\<close> until \<open>idx \<ge> len\<close>; any error of \<^verbatim>\<open>br.Read\<close> closes the
  session and returns \<^verbatim>\<open>(nil, err)\<close>. A panic of \<^verbatim>\<open>Close\<close> leaves \<^verbatim>\<open>read0\<close> as a panic.
\<close>

definition rsize :: "(byte list \<times> error option) list \<Rightarrow> nat" where
  "rsize evs = sum_list (map (\<lambda>e. Suc (length (fst e))) evs)"

function read0_loop ::
    "session \<Rightarrow> byte list \<Rightarrow> nat \<Rightarrow> (byte list \<times> error option) outcome \<times> session" where
  "read0_loop s buff idx =
     (let r = br_Read (rstream (conn s)) (length buff - idx);
          l = length (fst (fst r));
          s1 = s\<lparr>conn := (conn s)\<lparr>rstream := snd r\<rparr>\<rparr>
      in case snd (fst r) of
           Some e \<Rightarrow>
             (case Close s1 of
                (Ret x, s2) \<Rightarrow> (Ret ([], Some e), s2)
              | (Panic q, s2) \<Rightarrow> (Panic q, s2)
              | (Blocked, s2) \<Rightarrow> (Blocked, s2))
         | None \<Rightarrow>
             (if idx + l \<ge> length buff
              then (Ret (take idx buff @ fst (fst r) @ drop (idx + l) buff, None), s1)
              else read0_loop s1 (take idx buff @ fst (fst r) @ drop (idx + l) buff) (idx + l)))"
  by pat_completeness auto

lemma br_Read_rsize_less:
  "0 < k \<Longrightarrow> snd (fst (br_Read evs k)) = None \<Longrightarrow> rsize (snd (br_Read evs k)) < rsize evs"
  by (cases evs) (auto simp: rsize_def)

lemma br_Read_length_le: "length (fst (fst (br_Read evs k))) \<le> k"
  by (cases evs) auto

termination read0_loop
proof (relation "measure (\<lambda>(s, buff, idx). rsize (rstream (conn s)))", goal_cases)
  case 1
  show ?case by simp
next
  case (2 s buff idx r l s1)
  have "0 < length buff - idx"
    using 2 br_Read_length_le [of "rstream (conn s)" "length buff - idx"] by simp
  then show ?case
    using 2 br_Read_rsize_less [of "length buff - idx" "rstream (conn s)"] by simp
qed

declare read0_loop.simps [simp del]

definition read0 :: "session \<Rightarrow> int \<Rightarrow> (byte list \<times> error option) outcome \<times> session" where
  "read0 s len =
     (if len < 0 then (Panic MakeSliceLenOutOfRange, s)
      else read0_loop s (replicate (nat len) 0) 0)"

text \<open>
  Sending on a buffered channel (line 112): a closed channel panics, a full one suspends
  the sender until a receiver takes an element. The consumer of \<^verbatim>\<open>ReadChannel\<close> lives
  outside the file, so a send that finds the channel full ends the run as \<open>Blocked\<close>.
\<close>

definition chan_send :: "'a chan \<Rightarrow> 'a \<Rightarrow> unit outcome \<times> 'a chan" where
  "chan_send ch x =
     (if ch_closed ch then (Panic SendOnClosedChannel, ch)
      else if length (ch_buf ch) < ch_cap ch then (Ret (), ch\<lparr>ch_buf := ch_buf ch @ [x]\<rparr>)
      else (Blocked, ch))"

text \<open>
  The body of the closure of \<^verbatim>\<open>ReadPacket\<close> (lines 79-117), before the deferred
  \<^verbatim>\<open>recover\<close>. At line 95 the variable \<^verbatim>\<open>err\<close> is the one assigned at line 86, and it is
  nil there because line 87 did not return.
\<close>

definition ReadPacket_body :: "packet_pkg \<Rightarrow> session \<Rightarrow> error option outcome \<times> session" where
  "ReadPacket_body pk s =
     (case read0 s (PACKET_HEAD_LEN pk) of
        (Panic q, s1) \<Rightarrow> (Panic q, s1)
      | (Blocked, s1) \<Rightarrow> (Blocked, s1)
      | (Ret (buff, Some e), s1) \<Rightarrow> (Ret (Some e), s1)
      | (Ret (buff, None), s1) \<Rightarrow>
          (case UnmarshalHeader pk buff of
             (head, Some e) \<Rightarrow>
               (case Close s1 of
                  (Ret x, s2) \<Rightarrow> (Ret (Some e), s2)
                | (Panic q, s2) \<Rightarrow> (Panic q, s2)
                | (Blocked, s2) \<Rightarrow> (Blocked, s2))
           | (head, None) \<Rightarrow>
               (if sint (BodyLen head) > MAX_PACKET_BYTES pk then (Ret None, s1)
                else
                  (case read0 s1 (sint (BodyLen head)) of
                     (Panic q, s2) \<Rightarrow> (Panic q, s2)
                   | (Blocked, s2) \<Rightarrow> (Blocked, s2)
                   | (Ret (body, Some e), s2) \<Rightarrow> (Ret (Some e), s2)
                   | (Ret (body, None), s2) \<Rightarrow>
                       (case UnmarshalPacket (frameCodec s2) \<lparr>Header = head, Data = body\<rparr> of
                          (packetWithPayLoad, Some e) \<Rightarrow> (Ret None, s2)
                        | (packetWithPayLoad, None) \<Rightarrow>
                            (case chan_send (ReadChannel s2) packetWithPayLoad of
                               (Panic q, ch) \<Rightarrow> (Panic q, s2)
                             | (Blocked, ch) \<Rightarrow> (Blocked, s2)
                             | (Ret x, ch) \<Rightarrow>
                                 (Ret None,
                                  (case FlowStat (rc s2) of
                                     None \<Rightarrow> s2\<lparr>ReadChannel := ch\<rparr>
                                   | Some fs \<Rightarrow>
                                       s2\<lparr>ReadChannel := ch,
                                          rc := (rc s2)\<lparr>FlowStat := Some
                                            (fs\<lparr>ReadFlow := Incr (ReadFlow fs) 1,
                                                ReadBytesFlow := Incr (ReadBytesFlow fs)
                                                  (of_int (PACKET_HEAD_LEN pk) + BodyLen head)\<rparr>)\<rparr>\<rparr>))))))))"

text \<open>
  The closure as called (lines 72-118): a panic is recovered and logged, and the closure
  then returns the zero value of its unnamed result, that is nil.
\<close>

definition ReadPacket_iter :: "packet_pkg \<Rightarrow> session \<Rightarrow> error option outcome \<times> session" where
  "ReadPacket_iter pk s =
     (case ReadPacket_body pk s of
        (Panic q, s') \<Rightarrow> (Ret None, s')
      | (Blocked, s') \<Rightarrow> (Blocked, s')
      | (Ret e, s') \<Rightarrow> (Ret e, s'))"

text \<open>
  \<^verbatim>\<open>ReadPacket\<close> (lines 67-123): the loop runs while the session is open and leaves on a
  non-nil error of the closure. Nothing bounds the number of rounds when a round consumes
  no input, so the loop is a partial function: \<open>None\<close> is a run that never returns.
\<close>

partial_function (option) ReadPacket :: "packet_pkg \<Rightarrow> session \<Rightarrow> (unit outcome \<times> session) option" where
  "ReadPacket pk s =
     (if isClose s then Some (Ret (), s)
      else
        (case ReadPacket_iter pk s of
           (Ret None, s') \<Rightarrow> ReadPacket pk s'
         | (Ret (Some e), s') \<Rightarrow> Some (Ret (), s')
         | (Panic q, s') \<Rightarrow> Some (Panic q, s')
         | (Blocked, s') \<Rightarrow> Some (Blocked, s')))"

declare ReadPacket.simps [code]

section \<open>Writing\<close>

text \<open>Lines 167-176 of \<^verbatim>\<open>write0\<close>: the batch is built packet by packet.\<close>

definition write0_batch :: "codec \<Rightarrow> packet list \<Rightarrow> byte list" where
  "write0_batch fc tlv =
     foldl (\<lambda>batch t.
              if snd (MarshalPacket fc t) \<noteq> None \<or> length (fst (MarshalPacket fc t)) \<le> 0
              then batch
              else batch @ fst (MarshalPacket fc t))
       [] tlv"

lemma conn_Write_le: "fst (fst (conn_Write c p)) \<le> length p"
  by (auto simp: conn_Write_def split: list.splits)

lemma conn_Write_wscript_le: "length (wscript (snd (conn_Write c p))) \<le> length (wscript c)"
  by (auto simp: conn_Write_def split: list.splits)

lemma conn_Write_ErrShortWrite:
  "snd (fst (conn_Write c p)) = Some ErrShortWrite \<Longrightarrow>
   length (wscript (snd (conn_Write c p))) < length (wscript c)"
  by (auto simp: conn_Write_def split: list.splits if_splits)

lemma conn_Write_short:
  "fst (fst (conn_Write c p)) < length p \<Longrightarrow> snd (fst (conn_Write c p)) = None \<Longrightarrow>
   length (wscript (snd (conn_Write c p))) < length (wscript c)"
  by (auto simp: conn_Write_def split: list.splits if_splits)

lemma bw_Write_loop_direct:
  "length p > Available b \<Longrightarrow> bw_err b = None \<Longrightarrow> bw_buf b = [] \<Longrightarrow>
   bw_Write_loop b c p nn =
     bw_Write_loop (b\<lparr>bw_err := snd (fst (conn_Write c p))\<rparr>) (snd (conn_Write c p))
       (drop (fst (fst (conn_Write c p))) p) (nn + fst (fst (conn_Write c p)))"
  by (subst bw_Write_loop.simps) simp

lemma bw_Write_loop_flush:
  "length p > Available b \<Longrightarrow> bw_err b = None \<Longrightarrow> bw_buf b \<noteq> [] \<Longrightarrow>
   bw_Write_loop b c p nn =
     bw_Write_loop
       (fst (snd (bw_Flush (b\<lparr>bw_buf := bw_buf b @ take (Available b) p\<rparr>, c))))
       (snd (snd (bw_Flush (b\<lparr>bw_buf := bw_buf b @ take (Available b) p\<rparr>, c))))
       (drop (Available b) p) (nn + Available b)"
  by (subst bw_Write_loop.simps) simp

lemma bw_Write_loop_error:
  "bw_err b \<noteq> None \<Longrightarrow> bw_Write_loop b c p nn = ((nn, bw_err b), b, c)"
  by (subst bw_Write_loop.simps) (cases "bw_err b", simp_all)

lemma bw_Write_loop_fits:
  "length p \<le> Available b \<Longrightarrow> bw_err b = None \<Longrightarrow>
   bw_Write_loop b c p nn = ((nn + length p, None), b\<lparr>bw_buf := bw_buf b @ p\<rparr>, c)"
  by (subst bw_Write_loop.simps) simp

lemma bw_Flush_wscript_le:
  "length (wscript (snd (snd (bw_Flush (b, c))))) \<le> length (wscript c)"
  using conn_Write_wscript_le [of c "bw_buf b"] by (simp add: bw_Flush_def Let_def)

lemma bw_Flush_ErrShortWrite:
  "bw_err b = None \<Longrightarrow> bw_err (fst (snd (bw_Flush (b, c)))) = Some ErrShortWrite \<Longrightarrow>
   length (wscript (snd (snd (bw_Flush (b, c))))) < length (wscript c)"
  using conn_Write_ErrShortWrite [of c "bw_buf b"] conn_Write_short [of c "bw_buf b"]
  by (auto simp: bw_Flush_def Let_def split: if_splits)

lemma bw_Write_loop_wscript_le:
  "length (wscript (snd (snd (bw_Write_loop b c p nn)))) \<le> length (wscript c)"
proof (induction b c p nn rule: bw_Write_loop.induct)
  case (1 b c p nn)
  consider (direct) "length p > Available b" "bw_err b = None" "bw_buf b = []"
    | (flush) "length p > Available b" "bw_err b = None" "bw_buf b \<noteq> []"
    | (err) "bw_err b \<noteq> None"
    | (fits) "length p \<le> Available b" "bw_err b = None"
    by fastforce
  then show ?case
  proof cases
    case direct
    then show ?thesis
      using "1.IH"(1) conn_Write_wscript_le [of c p] by (simp add: bw_Write_loop_direct)
  next
    case flush
    then show ?thesis
      using "1.IH"(2) bw_Flush_wscript_le [of "b\<lparr>bw_buf := bw_buf b @ take (Available b) p\<rparr>" c]
      by (simp add: bw_Write_loop_flush)
  next
    case err
    then show ?thesis by (simp add: bw_Write_loop_error)
  next
    case fits
    then show ?thesis by (simp add: bw_Write_loop_fits)
  qed
qed

lemma bw_Write_loop_ErrShortWrite:
  "bw_err b = None \<Longrightarrow> snd (fst (bw_Write_loop b c p nn)) = Some ErrShortWrite \<Longrightarrow>
   length (wscript (snd (snd (bw_Write_loop b c p nn)))) < length (wscript c)"
proof (induction b c p nn rule: bw_Write_loop.induct)
  case (1 b c p nn)
  consider (direct) "length p > Available b" "bw_err b = None" "bw_buf b = []"
    | (flush) "length p > Available b" "bw_err b = None" "bw_buf b \<noteq> []"
    | (fits) "length p \<le> Available b" "bw_err b = None"
    using "1.prems"(1) by fastforce
  then show ?case
  proof cases
    case direct
    let ?b' = "b\<lparr>bw_err := snd (fst (conn_Write c p))\<rparr>"
    let ?c' = "snd (conn_Write c p)"
    let ?p' = "drop (fst (fst (conn_Write c p))) p"
    let ?n' = "nn + fst (fst (conn_Write c p))"
    have eq: "bw_Write_loop b c p nn = bw_Write_loop ?b' ?c' ?p' ?n'"
      using direct by (rule bw_Write_loop_direct)
    show ?thesis
    proof (cases "snd (fst (conn_Write c p))")
      case None
      then have "bw_err ?b' = None" by simp
      moreover have "snd (fst (bw_Write_loop ?b' ?c' ?p' ?n')) = Some ErrShortWrite"
        using "1.prems"(2) eq by simp
      ultimately have "length (wscript (snd (snd (bw_Write_loop ?b' ?c' ?p' ?n')))) < length (wscript ?c')"
        using "1.IH"(1) direct by simp
      then show ?thesis
        using eq conn_Write_wscript_le [of c p] by simp
    next
      case (Some e)
      then have res: "bw_Write_loop ?b' ?c' ?p' ?n' = ((?n', Some e), ?b', ?c')"
        by (simp add: bw_Write_loop_error)
      then have "e = ErrShortWrite" using "1.prems"(2) eq by simp
      then show ?thesis
        using eq res Some conn_Write_ErrShortWrite [of c p] by simp
    qed
  next
    case flush
    let ?f = "bw_Flush (b\<lparr>bw_buf := bw_buf b @ take (Available b) p\<rparr>, c)"
    let ?b' = "fst (snd ?f)"
    let ?c' = "snd (snd ?f)"
    let ?p' = "drop (Available b) p"
    let ?n' = "nn + Available b"
    have eq: "bw_Write_loop b c p nn = bw_Write_loop ?b' ?c' ?p' ?n'"
      using flush by (rule bw_Write_loop_flush)
    have le: "length (wscript ?c') \<le> length (wscript c)"
      by (rule bw_Flush_wscript_le)
    show ?thesis
    proof (cases "bw_err ?b'")
      case None
      moreover have "snd (fst (bw_Write_loop ?b' ?c' ?p' ?n')) = Some ErrShortWrite"
        using "1.prems"(2) eq by simp
      ultimately have "length (wscript (snd (snd (bw_Write_loop ?b' ?c' ?p' ?n')))) < length (wscript ?c')"
        using "1.IH"(2) flush by simp
      then show ?thesis using eq le by simp
    next
      case (Some e)
      then have res: "bw_Write_loop ?b' ?c' ?p' ?n' = ((?n', Some e), ?b', ?c')"
        by (simp add: bw_Write_loop_error)
      then have "e = ErrShortWrite" using "1.prems"(2) eq by simp
      with Some have "bw_err ?b' = Some ErrShortWrite" by simp
      then have "length (wscript ?c') < length (wscript c)"
        using bw_Flush_ErrShortWrite [of "b\<lparr>bw_buf := bw_buf b @ take (Available b) p\<rparr>" c] flush
        by simp
      then show ?thesis using eq res by simp
    qed
  next
    case fits
    then show ?thesis using "1.prems"(2) by (simp add: bw_Write_loop_fits)
  qed
qed

lemma bw_Write_loop_no_error:
  "snd (fst (bw_Write_loop b c p nn)) = None \<Longrightarrow> fst (fst (bw_Write_loop b c p nn)) = nn + length p"
proof (induction b c p nn rule: bw_Write_loop.induct)
  case (1 b c p nn)
  consider (direct) "length p > Available b" "bw_err b = None" "bw_buf b = []"
    | (flush) "length p > Available b" "bw_err b = None" "bw_buf b \<noteq> []"
    | (err) "bw_err b \<noteq> None"
    | (fits) "length p \<le> Available b" "bw_err b = None"
    by fastforce
  then show ?case
  proof cases
    case direct
    then show ?thesis
      using "1.IH"(1) "1.prems" conn_Write_le [of c p] by (simp add: bw_Write_loop_direct)
  next
    case flush
    then show ?thesis
      using "1.IH"(2) "1.prems" by (simp add: bw_Write_loop_flush)
  next
    case err
    then show ?thesis using "1.prems" by (simp add: bw_Write_loop_error)
  next
    case fits
    then show ?thesis by (simp add: bw_Write_loop_fits)
  qed
qed

text \<open>
  Lines 182-206 of \<^verbatim>\<open>write0\<close>. At every head of the loop \<^verbatim>\<open>tmp\<close> is \<^verbatim>\<open>batch[l:]\<close>
  (lines 183 and 205), so \<open>l\<close> alone is the loop's state; the slice expression of line 205
  panics when \<open>l\<close> exceeds the length. The result is \<open>Ret True\<close> when the loop is left by
  \<^verbatim>\<open>break\<close> and \<open>Ret False\<close> when line 191 returns after \<^verbatim>\<open>Close\<close>. The lemmas before it
  are what its termination needs to know of \<^verbatim>\<open>bw.Write\<close>.
\<close>

function write0_loop :: "session \<Rightarrow> byte list \<Rightarrow> nat \<Rightarrow> bool outcome \<times> session" where
  "write0_loop s batch l =
     (let r = bw_Write (bw s, conn s) (drop l batch);
          len = fst (fst r);
          err = snd (fst r);
          s1 = s\<lparr>bw := fst (snd r), conn := snd (snd r)\<rparr>
      in if err \<noteq> None \<and> err \<noteq> Some ErrShortWrite then
           (case Close s1 of
              (Ret x, s2) \<Rightarrow> (Ret False, s2)
            | (Panic q, s2) \<Rightarrow> (Panic q, s2)
            | (Blocked, s2) \<Rightarrow> (Blocked, s2))
         else
           let s2 = (if err = Some ErrShortWrite then s1\<lparr>bw := bw_Reset (bw s1)\<rparr> else s1)
           in if l + len = length batch then (Ret True, s2)
              else if l + len > length batch then (Panic SliceBoundsOutOfRange, s2)
              else write0_loop s2 batch (l + len))"
  by pat_completeness auto
termination
proof (relation "measures
    [\<lambda>(s, batch, l). length (wscript (conn s)),
     \<lambda>(s, batch, l). (if bw_err (bw s) = None then 0 else 1)]", goal_cases)
  case 1
  show ?case by simp
next
  case (2 s batch l r len err s1 s2)
  have r: "r = bw_Write_loop (bw s) (conn s) (drop l batch) 0"
    using 2(1) by (simp add: bw_Write_def)
  have ne: "err \<noteq> None"
  proof
    assume "err = None"
    then have "snd (fst (bw_Write_loop (bw s) (conn s) (drop l batch) 0)) = None"
      using 2(3) r by simp
    then have "fst (fst (bw_Write_loop (bw s) (conn s) (drop l batch) 0)) = 0 + length (drop l batch)"
      by (rule bw_Write_loop_no_error)
    then have "len = length batch - l" using 2(2) r by simp
    then show False using 2(7,8) by simp
  qed
  then have esw: "err = Some ErrShortWrite" using 2(5) by blast
  have s2: "s2 = s1\<lparr>bw := bw_Reset (bw s1)\<rparr>" using 2(6) esw by simp
  have c2: "conn s2 = snd (snd r)" unfolding s2 2(4) by simp
  have e2: "bw_err (bw s2) = None" unfolding s2 by (simp add: bw_Reset_def)
  have "length (wscript (conn s2)) < length (wscript (conn s)) \<or>
        (length (wscript (conn s2)) = length (wscript (conn s)) \<and> bw_err (bw s) \<noteq> None)"
  proof (cases "bw_err (bw s)")
    case None
    have "snd (fst (bw_Write_loop (bw s) (conn s) (drop l batch) 0)) = Some ErrShortWrite"
      using esw 2(3) r by simp
    with None have "length (wscript (snd (snd (bw_Write_loop (bw s) (conn s) (drop l batch) 0))))
        < length (wscript (conn s))"
      by (rule bw_Write_loop_ErrShortWrite)
    then show ?thesis unfolding c2 r by simp
  next
    case (Some e)
    then have "r = ((0, Some e), bw s, conn s)"
      unfolding r by (simp add: bw_Write_loop_error)
    then show ?thesis unfolding c2 using Some by simp
  qed
  then show ?case using e2 by auto
qed

declare write0_loop.simps [simp del]

text \<open>
  \<^verbatim>\<open>write0\<close> (lines 166-214). The error of the final \<^verbatim>\<open>bw.Flush()\<close> (line 208) is dropped.
  \<^verbatim>\<open>int32(len(...))\<close> truncates to 32 bits.
\<close>

definition write0 :: "session \<Rightarrow> packet list \<Rightarrow> unit outcome \<times> session" where
  "write0 s tlv =
     (let batch = write0_batch (frameCodec s) tlv
      in if length batch \<le> 0 then (Ret (), s)
         else
           (case write0_loop s batch 0 of
              (Panic q, s1) \<Rightarrow> (Panic q, s1)
            | (Blocked, s1) \<Rightarrow> (Blocked, s1)
            | (Ret False, s1) \<Rightarrow> (Ret (), s1)
            | (Ret True, s1) \<Rightarrow>
                (let fl = bw_Flush (bw s1, conn s1);
                     s2 = s1\<lparr>bw := fst (snd fl), conn := snd (snd fl)\<rparr>
                 in (Ret (),
                     (case FlowStat (rc s2) of
                        None \<Rightarrow> s2
                      | Some fs \<Rightarrow>
                          s2\<lparr>rc := (rc s2)\<lparr>FlowStat := Some
                            (fs\<lparr>WriteFlow := Incr (WriteFlow fs) (of_nat (length tlv)),
                                WriteBytesFlow := Incr (WriteBytesFlow fs)
                                  (of_nat (length batch))\<rparr>)\<rparr>\<rparr>)))))"

text \<open>
  Receiving from a channel of pointers: an element if one is buffered, the nil pointer
  at once if the channel is closed and empty, and otherwise the receiver is suspended.
\<close>

definition chan_recv :: "'a option chan \<Rightarrow> 'a option outcome \<times> 'a option chan" where
  "chan_recv ch =
     (case ch_buf ch of
        x # xs \<Rightarrow> (Ret x, ch\<lparr>ch_buf := xs\<rparr>)
      | [] \<Rightarrow> (if ch_closed ch then (Ret None, ch) else (Blocked, ch)))"

text \<open>The inner loop of \<^verbatim>\<open>WritePacket\<close> (lines 228-233), \<open>n\<close> rounds.\<close>

fun recv_batch ::
    "nat \<Rightarrow> packet option chan \<Rightarrow> packet list \<Rightarrow> packet list outcome \<times> packet option chan" where
  "recv_batch 0 ch packets = (Ret packets, ch)"
| "recv_batch (Suc n) ch packets =
     (case chan_recv ch of
        (Ret p, ch') \<Rightarrow>
          recv_batch n ch' (case p of None \<Rightarrow> packets | Some q \<Rightarrow> packets @ [q])
      | (Panic e, ch') \<Rightarrow> (Panic e, ch')
      | (Blocked, ch') \<Rightarrow> (Blocked, ch'))"

text \<open>
  One round of the first loop of \<^verbatim>\<open>WritePacket\<close> (lines 221-240); \<open>now\<close> is what
  \<^verbatim>\<open>time.Now()\<close> returns at line 238. \<^verbatim>\<open>packets\<close> is empty at the start of every round
  (line 239). \<^verbatim>\<open>write0\<close> returns nothing, so line 238 runs after every call of it.
\<close>

definition WritePacket_iter :: "time \<Rightarrow> session \<Rightarrow> unit outcome \<times> session" where
  "WritePacket_iter now s =
     (case chan_recv (WriteChannel s) of
        (Panic q, ch) \<Rightarrow> (Panic q, s)
      | (Blocked, ch) \<Rightarrow> (Blocked, s)
      | (Ret p, ch) \<Rightarrow>
          (case recv_batch (min (length (ch_buf ch)) 100) ch
                  (case p of None \<Rightarrow> [] | Some q \<Rightarrow> [q]) of
             (Panic q, ch') \<Rightarrow> (Panic q, s\<lparr>WriteChannel := ch'\<rparr>)
           | (Blocked, ch') \<Rightarrow> (Blocked, s\<lparr>WriteChannel := ch'\<rparr>)
           | (Ret packets, ch') \<Rightarrow>
               (if length packets > 0 then
                  (case write0 (s\<lparr>WriteChannel := ch'\<rparr>) packets of
                     (Ret x, s2) \<Rightarrow> (Ret (), s2\<lparr>lasttime := now\<rparr>)
                   | (Panic q, s2) \<Rightarrow> (Panic q, s2)
                   | (Blocked, s2) \<Rightarrow> (Blocked, s2))
                else (Ret (), s\<lparr>WriteChannel := ch'\<rparr>))))"

text \<open>
  \<^verbatim>\<open>WritePacket\<close> (lines 217-252). \<open>clk i\<close> is the clock reading of round \<open>i\<close>. A round
  on a channel that is closed and empty while \<^verbatim>\<open>isClose\<close> is false changes nothing, so the
  first loop is a partial function. The second loop (lines 245-251) discards what is
  buffered and ends once the channel is closed; on an open channel it stays suspended.
\<close>

partial_function (option) WritePacket_loop ::
    "(nat \<Rightarrow> time) \<Rightarrow> nat \<Rightarrow> session \<Rightarrow> (unit outcome \<times> session) option" where
  "WritePacket_loop clk i s =
     (if isClose s then Some (Ret (), s)
      else
        (case WritePacket_iter (clk i) s of
           (Ret x, s') \<Rightarrow> WritePacket_loop clk (Suc i) s'
         | (Panic q, s') \<Rightarrow> Some (Panic q, s')
         | (Blocked, s') \<Rightarrow> Some (Blocked, s')))"

declare WritePacket_loop.simps [code]

definition WritePacket_drain :: "session \<Rightarrow> unit outcome \<times> session" where
  "WritePacket_drain s =
     ((if ch_closed (WriteChannel s) then Ret () else Blocked),
      s\<lparr>WriteChannel := (WriteChannel s)\<lparr>ch_buf := []\<rparr>\<rparr>)"

definition WritePacket :: "(nat \<Rightarrow> time) \<Rightarrow> session \<Rightarrow> (unit outcome \<times> session) option" where
  "WritePacket clk s =
     (case WritePacket_loop clk 0 s of
        None \<Rightarrow> None
      | Some (Ret x, s') \<Rightarrow> Some (WritePacket_drain s')
      | Some (Panic q, s') \<Rightarrow> Some (Panic q, s')
      | Some (Blocked, s') \<Rightarrow> Some (Blocked, s'))"

section \<open>Notions used in the statements\<close>

text \<open>
  Channels are closed by \<^verbatim>\<open>Close\<close> only, after it has set \<^verbatim>\<open>isClose\<close>: in every state a
  single thread of calls reaches, an open session has open channels.
\<close>

definition wf_session :: "session \<Rightarrow> bool" where
  "wf_session s =
     (isClose s \<or> (\<not> ch_closed (WriteChannel s) \<and> \<not> ch_closed (ReadChannel s)))"

text \<open>\<open>Close_times n\<close>: \<^verbatim>\<open>Close\<close> called \<open>n\<close> times in a row, whatever each call returns.\<close>

primrec Close_times :: "nat \<Rightarrow> session \<Rightarrow> session" where
  "Close_times 0 s = s"
| "Close_times (Suc n) s = Close_times n (snd (Close s))"

text \<open>1 January 1970 in nanoseconds from the zero time (Go's \<^verbatim>\<open>unixToInternal\<close> seconds).\<close>

definition unix_epoch :: time where
  "unix_epoch = 62135596800 * 1000000000"

text \<open>
  Concrete values for the parameters, used where a statement is evaluated: a one-byte
  header that is the body length, at most 4 body bytes, a codec that rejects the body
  \<open>[0]\<close> in both directions and otherwise sends the body as it is.
\<close>

definition sample_pkg :: packet_pkg where
  "sample_pkg =
     \<lparr>PACKET_HEAD_LEN = 1,
      MAX_PACKET_BYTES = 4,
      UnmarshalHeader = (\<lambda>bs. case bs of
          [] \<Rightarrow> (\<lparr>BodyLen = 0\<rparr>, Some (ErrNew ''short header''))
        | b # rest \<Rightarrow> (\<lparr>BodyLen = ucast b\<rparr>, None))\<rparr>"

definition sample_codec :: codec where
  "sample_codec =
     \<lparr>UnmarshalPacket = (\<lambda>p. if Data p = [0] then (None, Some (ErrNew ''bad body''))
                              else (Some p, None)),
      MarshalPacket = (\<lambda>p. if Data p = [0] then ([], Some (ErrNew ''bad packet''))
                            else (Data p, None))\<rparr>"

definition sample_rc :: remoting_config where
  "sample_rc =
     \<lparr>FlowStat = Some \<lparr>Connections = 0, ReadFlow = 0, ReadBytesFlow = 0,
                        WriteFlow = 0, WriteBytesFlow = 0\<rparr>,
      IdleTime = 10,
      ReadBufferSize = 0,
      WriteBufferSize = 0,
      ReadChannelSize = 2,
      WriteChannelSize = 2\<rparr>"

definition sample_conn :: "(byte list \<times> error option) list \<Rightarrow> (nat \<times> error option) list \<Rightarrow> conn" where
  "sample_conn input outcomes =
     \<lparr>remote = ''peer'', rstream = input, wire = [], wscript = outcomes, conn_closed = False\<rparr>"

definition sample_session :: "(byte list \<times> error option) list \<Rightarrow> (nat \<times> error option) list \<Rightarrow> session" where
  "sample_session input outcomes =
     \<lparr>conn = sample_conn input outcomes,
      remoteAddr = ''peer'',
      bw = \<lparr>bw_err = None, bw_buf = [], bw_size = 4096\<rparr>,
      ReadChannel = \<lparr>ch_buf = [], ch_cap = 2, ch_closed = False\<rparr>,
      WriteChannel = \<lparr>ch_buf = [], ch_cap = 2, ch_closed = False\<rparr>,
      isClose = False,
      lasttime = 0,
      rc = sample_rc\<lparr>FlowStat := Some \<lparr>Connections = 1, ReadFlow = 0, ReadBytesFlow = 0,
                        WriteFlow = 0, WriteBytesFlow = 0\<rparr>\<rparr>,
      frameCodec = sample_codec\<rparr>"

definition sample_packet :: "byte list \<Rightarrow> packet" where
  "sample_packet body = \<lparr>Header = \<lparr>BodyLen = of_nat (length body)\<rparr>, Data = body\<rparr>"

text \<open>The non-nil pointers of a list of channel elements, in order.\<close>

fun non_nil :: "'a option list \<Rightarrow> 'a list" where
  "non_nil [] = []"
| "non_nil (None # xs) = non_nil xs"
| "non_nil (Some x # xs) = x # non_nil xs"

text \<open>The packets line 170 of \<^verbatim>\<open>write0\<close> lets through: no error and a non-empty encoding.\<close>

definition encodes :: "codec \<Rightarrow> packet \<Rightarrow> bool" where
  "encodes fc t = (snd (MarshalPacket fc t) = None \<and> fst (MarshalPacket fc t) \<noteq> [])"

text \<open>
  A session whose connection refuses the next write, with one packet of three bytes
  queued and a write buffer of two bytes; and sessions on which \<^verbatim>\<open>Write\<close> has queued two
  and three packets, the second of which the codec cannot encode.
\<close>

definition failing_write_session :: session where
  "failing_write_session =
     (sample_session [] [(0, Some (ErrNew ''broken pipe''))])
       \<lparr>bw := NewWriterSize 2,
        WriteChannel := \<lparr>ch_buf = [Some (sample_packet [1, 2, 3])], ch_cap = 2, ch_closed = False\<rparr>\<rparr>"

definition queued_session :: session where
  "queued_session =
     snd (Write (snd (Write
       ((sample_session [] [])\<lparr>WriteChannel := \<lparr>ch_buf = [], ch_cap = 3, ch_closed = False\<rparr>\<rparr>)
       (Some (sample_packet [1, 2]))))
       (Some (sample_packet [0])))"

definition queued_session3 :: session where
  "queued_session3 = snd (Write queued_session (Some (sample_packet [3])))"

text \<open>
  What a call of \<^verbatim>\<open>read0\<close> for \<open>n\<close> bytes on \<open>s\<close> may leave: a full buffer and a session
  that differs from \<open>s\<close> in the unread input only; or an error with a nil buffer and a
  closed session; or, when \<^verbatim>\<open>Close\<close> panicked, a closed session; it is never suspended.
\<close>

definition read_ok :: "session \<Rightarrow> nat \<Rightarrow> (byte list \<times> error option) outcome \<times> session \<Rightarrow> bool" where
  "read_ok s n res =
     (case res of
        (Ret (buf, None), s') \<Rightarrow>
          length buf = n \<and> s' = s\<lparr>conn := (conn s)\<lparr>rstream := rstream (conn s')\<rparr>\<rparr>
      | (Ret (buf, Some e), s') \<Rightarrow> buf = [] \<and> isClose s'
      | (Panic q, s') \<Rightarrow> isClose s' \<and> \<not> (wf_session s \<and> FlowStat (rc s) \<noteq> None)
      | (Blocked, s') \<Rightarrow> False)"

text \<open>
  The session the read loop leaves on the sample input once the packet with body \<open>[5]\<close>
  is published and the end of the input has closed the session.
\<close>

definition sample_final :: session where
  "sample_final =
     \<lparr>conn = \<lparr>remote = ''peer'', rstream = [], wire = [], wscript = [], conn_closed = True\<rparr>,
      remoteAddr = ''peer'',
      bw = \<lparr>bw_err = None, bw_buf = [], bw_size = 4096\<rparr>,
      ReadChannel = \<lparr>ch_buf = [Some \<lparr>Header = \<lparr>BodyLen = 1\<rparr>, Data = [5]\<rparr>],
                      ch_cap = 2, ch_closed = True\<rparr>,
      WriteChannel = \<lparr>ch_buf = [], ch_cap = 2, ch_closed = True\<rparr>,
      isClose = True,
      lasttime = 0,
      rc = sample_rc\<lparr>FlowStat := Some \<lparr>Connections = 0, ReadFlow = 1, ReadBytesFlow = 2,
                        WriteFlow = 0, WriteBytesFlow = 0\<rparr>\<rparr>,
      frameCodec = sample_codec\<rparr>"

text \<open>
  Lines 133-135 of \<^verbatim>\<open>read0\<close>: close the session and return the error. \<open>set_rstream\<close>
  moves the input position; \<open>stream_bytes\<close> is the bytes a list of reads delivers.
\<close>

definition close_with :: "error \<Rightarrow> session \<Rightarrow> (byte list \<times> error option) outcome \<times> session" where
  "close_with e s1 =
     (case Close s1 of
        (Ret x, s2) \<Rightarrow> (Ret ([], Some e), s2)
      | (Panic q, s2) \<Rightarrow> (Panic q, s2)
      | (Blocked, s2) \<Rightarrow> (Blocked, s2))"

definition set_rstream :: "session \<Rightarrow> (byte list \<times> error option) list \<Rightarrow> session" where
  "set_rstream s evs = s\<lparr>conn := (conn s)\<lparr>rstream := evs\<rparr>\<rparr>"

definition stream_bytes :: "(byte list \<times> error option) list \<Rightarrow> byte list" where
  "stream_bytes evs = concat (map fst evs)"

text \<open>
  Two sessions with the default write buffer of 4096 bytes: on the first the next
  \<^verbatim>\<open>conn.Write\<close> takes one byte and fails; on the second it takes one byte and reports no
  error (a short write).
\<close>

definition flush_fail_session :: session where
  "flush_fail_session = sample_session [] [(1, Some (ErrNew ''broken pipe''))]"

definition short_write_session :: session where
  "short_write_session = sample_session [] [(1, None)]"

text \<open>
  A session with two bytes waiting in the write buffer, and an order of steps for two
  callers of \<^verbatim>\<open>Close\<close>: both test \<^verbatim>\<open>isClose\<close> before either sets it, the first caller then
  runs to its end, and the second goes on.
\<close>

definition buffered_session :: session where
  "buffered_session = (sample_session [] [])\<lparr>bw := \<lparr>bw_err = None, bw_buf = [7, 8], bw_size = 4096\<rparr>\<rparr>"

definition overlapping_calls :: "nat list" where
  "overlapping_calls = [0, 1, 0, 0, 0, 0, 0, 0, 1, 1, 1, 1]"

text \<open>
  The calls that act on a session: \<^verbatim>\<open>Write\<close>, \<^verbatim>\<open>Close\<close>, a round of the read loop and a
  round of the write loop at a clock reading. \<open>takes_packet\<close> holds of a round of the write
  loop that receives at least one non-nil packet; \<open>no_packet_taken cs s\<close> says that none of
  the calls \<open>cs\<close>, made one after the other from \<open>s\<close>, is such a round.
\<close>

datatype session_call =
    CallWrite "packet option"
  | CallClose
  | CallReadRound packet_pkg
  | CallWriteRound time

fun call :: "session_call \<Rightarrow> session \<Rightarrow> session" where
  "call (CallWrite p) s = snd (Write s p)"
| "call CallClose s = snd (Close s)"
| "call (CallReadRound pk) s = snd (ReadPacket_iter pk s)"
| "call (CallWriteRound now) s = snd (WritePacket_iter now s)"

fun takes_packet :: "session_call \<Rightarrow> session \<Rightarrow> bool" where
  "takes_packet (CallWriteRound now) s = (non_nil (take 101 (ch_buf (WriteChannel s))) \<noteq> [])"
| "takes_packet c s = False"

fun calls :: "session_call list \<Rightarrow> session \<Rightarrow> session" where
  "calls [] s = s"
| "calls (c # cs) s = calls cs (call c s)"

fun no_packet_taken :: "session_call list \<Rightarrow> session \<Rightarrow> bool" where
  "no_packet_taken [] s = True"
| "no_packet_taken (c # cs) s = (\<not> takes_packet c s \<and> no_packet_taken cs (call c s))"

text \<open>
  A new session on which \<^verbatim>\<open>Write\<close> has queued a packet the codec cannot encode; and three
  calls none of which is a round that takes a packet: a nil pointer is queued, a round
  receives it, and a packet with body \<open>[1, 2]\<close> is queued.
\<close>

definition unencodable_session :: session where
  "unencodable_session = snd (Write (sample_session [] []) (Some (sample_packet [0])))"

definition quiet_calls :: "session_call list" where
  "quiet_calls =
     [CallWrite None, CallWriteRound (unix_epoch + 3), CallWrite (Some (sample_packet [1, 2]))]"

section \<open>The session life cycle\<close>

lemma sample_NewSession:
  "NewSession (sample_conn input outcomes) sample_rc sample_codec = Ret (sample_session input outcomes)"
  by (simp add: NewSession_def make_chan_def max_chan_size_def sample_rc_def sample_conn_def
      sample_session_def NewWriterSize_def Incr_def)

lemma Close_isClose: "isClose (snd (Close s))"
  by (simp add: Close_def Let_def split: option.splits)

lemma Close_closed: "isClose s \<Longrightarrow> Close s = (Ret None, s)"
  by (simp add: Close_def)

lemma Close_times_Suc: "Close_times (Suc n) s = snd (Close s)"
proof (induction n arbitrary: s)
  case 0
  show ?case by simp
next
  case (Suc n)
  have "Close_times (Suc (Suc n)) s = Close_times (Suc n) (snd (Close s))" by simp
  also have "\<dots> = snd (Close (snd (Close s)))" by (rule Suc.IH)
  also have "\<dots> = snd (Close s)" by (simp add: Close_closed Close_isClose)
  finally show ?case .
qed

lemma Close_run_Close: "Close_run 7 AtGuard s = (close_pc_of (fst (Close s)), snd (Close s))"
  by (simp add: eval_nat_numeral Close_def Let_def close_pc_of_def split: option.splits prod.splits)

lemma Close_overlap:
  assumes "\<not> isClose s" and "\<not> ch_closed (WriteChannel s)" and "\<not> ch_closed (ReadChannel s)"
    and "FlowStat (rc s) = Some fs"
  shows "Close_sched (take 2 overlapping_calls) ([AtGuard, AtGuard], s) = ([AtSetFlag, AtSetFlag], s)"
    and "Close_sched (take 8 overlapping_calls) ([AtGuard, AtGuard], s) = ([Returned, AtSetFlag], snd (Close s))"
    and "fst (Close_sched (take 11 overlapping_calls) ([AtGuard, AtGuard], s)) = [Returned, AtCloseWrite]"
    and "fst (Close_sched overlapping_calls ([AtGuard, AtGuard], s)) = [Returned, Panicked CloseOfClosedChannel]"
  using assms
  by (simp_all add: overlapping_calls_def Close_def Let_def split: prod.splits)

lemma Close_in_turn:
  assumes "\<not> isClose s" and "\<not> ch_closed (WriteChannel s)" and "\<not> ch_closed (ReadChannel s)"
    and "FlowStat (rc s) = Some fs"
  shows "Close_sched (replicate 7 0 @ replicate 7 1) ([AtGuard, AtGuard], s) = ([Returned, Returned], snd (Close s))"
  using assms
  by (simp add: eval_nat_numeral Close_def Let_def split: prod.splits)

lemma buffered_session_open:
  "\<not> isClose buffered_session" "\<not> ch_closed (WriteChannel buffered_session)"
  "\<not> ch_closed (ReadChannel buffered_session)"
  "FlowStat (rc buffered_session) = Some \<lparr>Connections = 1, ReadFlow = 0, ReadBytesFlow = 0,
                        WriteFlow = 0, WriteBytesFlow = 0\<rparr>"
  by (simp_all add: buffered_session_def sample_session_def)

lemma Close_flushes:
  assumes "bw_err (bw s) = None" and "\<not> conn_closed (conn s)" and "wscript (conn s) = []"
  shows "bw_Flush (bw s, conn s) = (None, (bw s)\<lparr>bw_buf := []\<rparr>, (conn s)\<lparr>wire := wire (conn s) @ bw_buf (bw s)\<rparr>)"
  using assms by (cases "bw_buf (bw s) = []") (simp_all add: bw_Flush_def conn_Write_def Let_def)

text \<open>
  Claim C2 as stated fails for callers whose statements alternate. Two callers both
  find \<^verbatim>\<open>isClose\<close> false (two steps) and the first runs to its end: the session is torn
  down, the state is the one a single \<^verbatim>\<open>Close\<close> leaves. The second caller is past the
  test: it sets the flag, flushes and closes the connection once more (three steps), and
  its \<^verbatim>\<open>close(self.WriteChannel)\<close> panics on the channel the first caller has closed. The
  teardown has been entered twice and the second call does not return.
\<close>
theorem Close_overlapping_counterexample:
  "Close_sched (take 2 overlapping_calls) ([AtGuard, AtGuard], buffered_session)
     = ([AtSetFlag, AtSetFlag], buffered_session)
   \<and> Close_sched (take 8 overlapping_calls) ([AtGuard, AtGuard], buffered_session)
     = ([Returned, AtSetFlag], snd (Close buffered_session))
   \<and> fst (Close_sched (take 11 overlapping_calls) ([AtGuard, AtGuard], buffered_session))
     = [Returned, AtCloseWrite]
   \<and> fst (Close_sched overlapping_calls ([AtGuard, AtGuard], buffered_session))
     = [Returned, Panicked CloseOfClosedChannel]"
  using Close_overlap [OF buffered_session_open] by simp

text \<open>
  Claim C2, amended: \<^verbatim>\<open>Close\<close> is idempotent for calls that run one after the other. On
  an open session with open channels and a flow-statistics sink the first call returns
  nil after flushing \<^verbatim>\<open>bw\<close> (on a connection that takes the write, the buffered bytes are
  on the wire and the buffer is empty), closing the connection, closing both channels and
  taking one off the connection counter; any further call returns nil and changes
  nothing, so after \<open>n + 1\<close> calls the state is the state after the first. The same holds
  step by step: one caller's seven steps are \<^verbatim>\<open>Close\<close>, and two callers that take their
  steps in turn both return and leave the state of one \<^verbatim>\<open>Close\<close>.
\<close>
theorem Close_idempotent:
  assumes "wf_session s" and "\<not> isClose s" and "FlowStat (rc s) = Some fs"
  shows "fst (Close s) = Ret None
       \<and> isClose (snd (Close s))
       \<and> bw (snd (Close s)) = fst (snd (bw_Flush (bw s, conn s)))
       \<and> conn (snd (Close s)) = (snd (snd (bw_Flush (bw s, conn s))))\<lparr>conn_closed := True\<rparr>
       \<and> (bw_err (bw s) = None \<and> \<not> conn_closed (conn s) \<and> wscript (conn s) = [] \<longrightarrow>
            wire (conn (snd (Close s))) = wire (conn s) @ bw_buf (bw s)
            \<and> bw_buf (bw (snd (Close s))) = [])
       \<and> conn_closed (conn (snd (Close s)))
       \<and> WriteChannel (snd (Close s)) = (WriteChannel s)\<lparr>ch_closed := True\<rparr>
       \<and> ReadChannel (snd (Close s)) = (ReadChannel s)\<lparr>ch_closed := True\<rparr>
       \<and> FlowStat (rc (snd (Close s))) = Some (fs\<lparr>Connections := Connections fs - 1\<rparr>)
       \<and> Close (snd (Close s)) = (Ret None, snd (Close s))
       \<and> Close_times (Suc n) s = snd (Close s)
       \<and> Close_run 7 AtGuard s = (Returned, snd (Close s))
       \<and> Close_sched (replicate 7 0 @ replicate 7 1) ([AtGuard, AtGuard], s)
           = ([Returned, Returned], snd (Close s))"
proof -
  have chans: "\<not> ch_closed (WriteChannel s)" "\<not> ch_closed (ReadChannel s)"
    using assms(1,2) by (simp_all add: wf_session_def)
  have first: "fst (Close s) = Ret None
       \<and> bw (snd (Close s)) = fst (snd (bw_Flush (bw s, conn s)))
       \<and> conn (snd (Close s)) = (snd (snd (bw_Flush (bw s, conn s))))\<lparr>conn_closed := True\<rparr>
       \<and> WriteChannel (snd (Close s)) = (WriteChannel s)\<lparr>ch_closed := True\<rparr>
       \<and> ReadChannel (snd (Close s)) = (ReadChannel s)\<lparr>ch_closed := True\<rparr>
       \<and> FlowStat (rc (snd (Close s))) = Some (fs\<lparr>Connections := Connections fs - 1\<rparr>)"
    using assms(2,3) chans by (simp add: Close_def Let_def Incr_def)
  have flushed: "bw_err (bw s) = None \<and> \<not> conn_closed (conn s) \<and> wscript (conn s) = [] \<longrightarrow>
            wire (conn (snd (Close s))) = wire (conn s) @ bw_buf (bw s)
            \<and> bw_buf (bw (snd (Close s))) = []"
    using first by (auto simp: Close_flushes)
  have cc: "conn_closed (conn (snd (Close s)))"
    using first by simp
  have again: "Close (snd (Close s)) = (Ret None, snd (Close s))"
    by (simp add: Close_closed Close_isClose)
  have run: "Close_run 7 AtGuard s = (Returned, snd (Close s))"
    using first by (simp add: Close_run_Close close_pc_of_def)
  show ?thesis
    using first flushed cc again run Close_isClose [of s] Close_times_Suc [of n s]
      Close_in_turn [OF assms(2) chans assms(3)]
    by simp
qed

theorem Close_idempotent_witness:
  "fst (Close buffered_session) = Ret None
   \<and> bw_buf (bw buffered_session) = [7, 8]
   \<and> wire (conn buffered_session) = []
   \<and> wire (conn (snd (Close buffered_session))) = [7, 8]
   \<and> bw_buf (bw (snd (Close buffered_session))) = []
   \<and> conn_closed (conn (snd (Close buffered_session)))
   \<and> FlowStat (rc (snd (Close buffered_session))) =
       Some \<lparr>Connections = 0, ReadFlow = 0, ReadBytesFlow = 0, WriteFlow = 0, WriteBytesFlow = 0\<rparr>
   \<and> Close_times 3 buffered_session = snd (Close buffered_session)
   \<and> ch_closed (WriteChannel (Close_times 3 buffered_session))
   \<and> ch_closed (ReadChannel (Close_times 3 buffered_session))
   \<and> Close_sched (replicate 7 0 @ replicate 7 1) ([AtGuard, AtGuard], buffered_session)
       = ([Returned, Returned], snd (Close buffered_session))"
proof -
  let ?s = "buffered_session"
  have a: "wf_session ?s" using buffered_session_open by (simp add: wf_session_def)
  have b: "\<not> isClose ?s" by (rule buffered_session_open(1))
  have c: "FlowStat (rc ?s) = Some \<lparr>Connections = 1, ReadFlow = 0, ReadBytesFlow = 0,
                        WriteFlow = 0, WriteBytesFlow = 0\<rparr>"
    by (rule buffered_session_open(4))
  have d: "ch_closed ((WriteChannel ?s)\<lparr>ch_closed := True\<rparr>)"
          "ch_closed ((ReadChannel ?s)\<lparr>ch_closed := True\<rparr>)" by simp_all
  have e: "bw_err (bw ?s) = None \<and> \<not> conn_closed (conn ?s) \<and> wscript (conn ?s) = []"
      "bw_buf (bw ?s) = [7, 8]" "wire (conn ?s) = []"
    by (simp_all add: buffered_session_def sample_session_def sample_conn_def)
  note th = Close_idempotent [OF a b c, of 2]
  have f: "wire (conn (snd (Close ?s))) = wire (conn ?s) @ bw_buf (bw ?s)
      \<and> bw_buf (bw (snd (Close ?s))) = []"
    using th e(1) by blast
  have g: "fst (Close ?s) = Ret None" "conn_closed (conn (snd (Close ?s)))"
      "WriteChannel (snd (Close ?s)) = (WriteChannel ?s)\<lparr>ch_closed := True\<rparr>"
      "ReadChannel (snd (Close ?s)) = (ReadChannel ?s)\<lparr>ch_closed := True\<rparr>"
      "FlowStat (rc (snd (Close ?s))) =
         Some \<lparr>Connections = 0, ReadFlow = 0, ReadBytesFlow = 0, WriteFlow = 0, WriteBytesFlow = 0\<rparr>"
      "Close_times 3 ?s = snd (Close ?s)"
      "Close_sched (replicate 7 0 @ replicate 7 1) ([AtGuard, AtGuard], ?s)
         = ([Returned, Returned], snd (Close ?s))"
    using th by (simp_all add: numeral_3_eq_3 del: Close_times.simps)
  show ?thesis
    using f g e(2,3) d by simp
qed

text \<open>
  Claim C3. \<^verbatim>\<open>Write\<close> (the spec's Enqueue) returns at once: its result has no suspended
  case. On an open session with room in the outbound channel the packet is appended and
  nil is returned; on an open session whose channel is full the ``FULL'' error is returned
  and nothing changes; on a closed session the ``CLOSED'' error is returned, and the two
  errors differ. A channel within its capacity stays within it.
\<close>
theorem Write_result:
  assumes "wf_session s"
  shows "(\<not> isClose s \<and> length (ch_buf (WriteChannel s)) < ch_cap (WriteChannel s) \<longrightarrow>
            Write s p = (None, s\<lparr>WriteChannel :=
              (WriteChannel s)\<lparr>ch_buf := ch_buf (WriteChannel s) @ [p]\<rparr>\<rparr>))
       \<and> (\<not> isClose s \<and> ch_cap (WriteChannel s) \<le> length (ch_buf (WriteChannel s)) \<longrightarrow>
            Write s p = (Some (ErrNew (''WRITE CHANNLE ['' @ remoteAddr s @ ''] FULL'')), s))
       \<and> (isClose s \<longrightarrow>
            Write s p = (Some (ErrNew (''Session|['' @ remoteAddr s @ '']|CLOSED'')), s))
       \<and> (length (ch_buf (WriteChannel s)) \<le> ch_cap (WriteChannel s) \<longrightarrow>
            length (ch_buf (WriteChannel (snd (Write s p))))
              \<le> ch_cap (WriteChannel (snd (Write s p))))
       \<and> ErrNew (''WRITE CHANNLE ['' @ remoteAddr s @ ''] FULL'')
            \<noteq> ErrNew (''Session|['' @ remoteAddr s @ '']|CLOSED'')"
proof -
  have "isClose s \<or> \<not> ch_closed (WriteChannel s)"
    using assms by (auto simp: wf_session_def)
  then show ?thesis
    by (auto simp: Write_def)
qed

theorem Write_result_witness:
  "fst (Write (sample_session [] []) (Some (sample_packet [1]))) = None
   \<and> ch_buf (WriteChannel (snd (Write (sample_session [] []) (Some (sample_packet [1])))))
       = [Some (sample_packet [1])]
   \<and> Write ((sample_session [] [])\<lparr>WriteChannel :=
          \<lparr>ch_buf = [None, None], ch_cap = 2, ch_closed = False\<rparr>\<rparr>) (Some (sample_packet [1]))
       = (Some (ErrNew ''WRITE CHANNLE [peer] FULL''),
          (sample_session [] [])\<lparr>WriteChannel :=
            \<lparr>ch_buf = [None, None], ch_cap = 2, ch_closed = False\<rparr>\<rparr>)
   \<and> fst (Write (snd (Close (sample_session [] []))) (Some (sample_packet [1])))
       = Some (ErrNew ''Session|[peer]|CLOSED'')"
proof -
  let ?s = "sample_session [] []"
  let ?full = "?s\<lparr>WriteChannel := \<lparr>ch_buf = [None, None], ch_cap = 2, ch_closed = False\<rparr>\<rparr>"
  let ?closed = "snd (Close ?s)"
  let ?p = "Some (sample_packet [1])"
  have w1: "wf_session ?s" and w2: "wf_session ?full" and w3: "wf_session ?closed"
    by (simp_all add: wf_session_def sample_session_def Close_isClose)
  have a: "\<not> isClose ?s \<and> length (ch_buf (WriteChannel ?s)) < ch_cap (WriteChannel ?s)"
    by (simp add: sample_session_def)
  have b: "\<not> isClose ?full \<and> ch_cap (WriteChannel ?full) \<le> length (ch_buf (WriteChannel ?full))"
    by (simp add: sample_session_def)
  have c: "isClose ?closed" by (rule Close_isClose)
  have r: "remoteAddr ?s = ''peer''" "remoteAddr ?full = ''peer''" "remoteAddr ?closed = ''peer''"
    by (simp_all add: sample_session_def Close_def Let_def sample_rc_def)
  have 1: "Write ?s ?p = (None, ?s\<lparr>WriteChannel :=
              (WriteChannel ?s)\<lparr>ch_buf := ch_buf (WriteChannel ?s) @ [?p]\<rparr>\<rparr>)"
    using Write_result [OF w1, of ?p] a by blast
  have 2: "Write ?full ?p = (Some (ErrNew ''WRITE CHANNLE [peer] FULL''), ?full)"
    using Write_result [OF w2, of ?p] b r(2) by simp
  have 3: "Write ?closed ?p = (Some (ErrNew ''Session|[peer]|CLOSED''), ?closed)"
    using Write_result [OF w3, of ?p] c r(3) by simp
  have 4: "ch_buf (WriteChannel ?s) = []" by (simp add: sample_session_def)
  show ?thesis
    unfolding 1 2 3 using 4 by simp
qed

text \<open>
  Claim C9, on the code: with a nil \<^verbatim>\<open>rc.FlowStat\<close> the constructor never returns a
  session: for channel sizes that are not negative, line 53 dereferences the nil pointer
  (unless a size is beyond what \<^verbatim>\<open>make\<close> accepts, when \<^verbatim>\<open>make\<close> has panicked before). And
  \<^verbatim>\<open>Close\<close> on an open session panics at line 268, after it has closed the connection and
  both channels.
\<close>
theorem nil_FlowStat_panics:
  assumes "FlowStat cfg = None"
  shows "NewSession cn cfg fc \<noteq> Ret s
       \<and> (0 \<le> ReadChannelSize cfg \<and> 0 \<le> WriteChannelSize cfg \<longrightarrow>
            NewSession cn cfg fc =
              Panic (if ReadChannelSize cfg \<le> max_chan_size \<and> WriteChannelSize cfg \<le> max_chan_size
                     then NilDereference else MakeChanSizeOutOfRange))
       \<and> (rc s = cfg \<and> \<not> isClose s \<and> wf_session s \<longrightarrow> fst (Close s) = Panic NilDereference)"
  using assms
  by (auto simp: NewSession_def make_chan_def Close_def Let_def wf_session_def split: if_splits)

theorem nil_FlowStat_panics_witness:
  "NewSession (sample_conn [] []) (sample_rc\<lparr>FlowStat := None\<rparr>) sample_codec = Panic NilDereference
   \<and> fst (Close ((sample_session [] [])\<lparr>rc := sample_rc\<lparr>FlowStat := None\<rparr>\<rparr>)) = Panic NilDereference"
proof -
  let ?cfg = "sample_rc\<lparr>FlowStat := None\<rparr>"
  let ?s = "(sample_session [] [])\<lparr>rc := ?cfg\<rparr>"
  have a: "FlowStat ?cfg = None" by simp
  have b: "0 \<le> ReadChannelSize ?cfg \<and> 0 \<le> WriteChannelSize ?cfg" by (simp add: sample_rc_def)
  have b': "ReadChannelSize ?cfg \<le> max_chan_size \<and> WriteChannelSize ?cfg \<le> max_chan_size"
    by (simp add: sample_rc_def max_chan_size_def)
  have c: "rc ?s = ?cfg \<and> \<not> isClose ?s \<and> wf_session ?s"
    by (simp add: sample_session_def wf_session_def)
  from nil_FlowStat_panics [OF a, of "sample_conn [] []" sample_codec ?s] b b' c
  show ?thesis by simp
qed

section \<open>The write pipeline\<close>

lemma non_nil_append: "non_nil (xs @ ys) = non_nil xs @ non_nil ys"
  by (induction xs rule: non_nil.induct) simp_all

lemma recv_batch_available:
  "n \<le> length (ch_buf ch) \<Longrightarrow>
   recv_batch n ch acc = (Ret (acc @ non_nil (take n (ch_buf ch))), ch\<lparr>ch_buf := drop n (ch_buf ch)\<rparr>)"
proof (induction n arbitrary: ch acc)
  case 0
  show ?case by simp
next
  case (Suc n)
  then obtain x xs where buf: "ch_buf ch = x # xs" by (cases "ch_buf ch") auto
  with Suc.prems have n: "n \<le> length (ch_buf (ch\<lparr>ch_buf := xs\<rparr>))" by simp
  show ?case
    using Suc.IH [OF n] buf by (cases x) (simp_all add: chan_recv_def)
qed

lemma WritePacket_iter_nonempty:
  assumes "ch_buf (WriteChannel s) \<noteq> []"
  shows "WritePacket_iter now s =
     (if non_nil (take 101 (ch_buf (WriteChannel s))) \<noteq> [] then
        (case write0 (s\<lparr>WriteChannel := (WriteChannel s)\<lparr>ch_buf := drop 101 (ch_buf (WriteChannel s))\<rparr>\<rparr>)
                (non_nil (take 101 (ch_buf (WriteChannel s)))) of
           (Ret x, s2) \<Rightarrow> (Ret (), s2\<lparr>lasttime := now\<rparr>)
         | (Panic q, s2) \<Rightarrow> (Panic q, s2)
         | (Blocked, s2) \<Rightarrow> (Blocked, s2))
      else (Ret (), s\<lparr>WriteChannel := (WriteChannel s)\<lparr>ch_buf := drop 101 (ch_buf (WriteChannel s))\<rparr>\<rparr>))"
proof -
  obtain x xs where buf: "ch_buf (WriteChannel s) = x # xs"
    using assms by (cases "ch_buf (WriteChannel s)") auto
  let ?ch = "(WriteChannel s)\<lparr>ch_buf := xs\<rparr>"
  have recv: "chan_recv (WriteChannel s) = (Ret x, ?ch)"
    using buf by (simp add: chan_recv_def)
  have first: "(case x of None \<Rightarrow> [] | Some q \<Rightarrow> [q]) = non_nil [x]"
    by (cases x) simp_all
  have "recv_batch (min (length (ch_buf ?ch)) 100) ?ch (non_nil [x]) =
        (Ret (non_nil [x] @ non_nil (take (min (length (ch_buf ?ch)) 100) (ch_buf ?ch))),
         ?ch\<lparr>ch_buf := drop (min (length (ch_buf ?ch)) 100) (ch_buf ?ch)\<rparr>)"
    by (rule recv_batch_available) simp
  moreover have "take (min (length xs) 100) xs = take 100 xs"
    by (simp add: min_def)
  moreover have "drop (min (length xs) 100) xs = drop 100 xs"
    by (simp add: min_def)
  moreover have "non_nil [x] @ non_nil (take 100 xs) = non_nil (take 101 (x # xs))"
    by (cases x) (simp_all add: take_Cons')
  moreover have "drop 101 (x # xs) = drop 100 xs"
    by (simp add: drop_Cons')
  ultimately have rb: "recv_batch (min (length (ch_buf ?ch)) 100) ?ch (non_nil [x]) =
        (Ret (non_nil (take 101 (x # xs))), (WriteChannel s)\<lparr>ch_buf := drop 101 (x # xs)\<rparr>)"
    by simp
  have rb': "recv_batch (min (length xs) 100) ?ch (case x of None \<Rightarrow> [] | Some q \<Rightarrow> [q]) =
        (Ret (non_nil (take 101 (x # xs))), (WriteChannel s)\<lparr>ch_buf := drop 101 (x # xs)\<rparr>)"
    using rb unfolding first by simp
  show ?thesis
    unfolding WritePacket_iter_def recv
    by (simp add: rb' buf)
qed

lemma WritePacket_iter_empty_closed:
  "ch_buf (WriteChannel s) = [] \<Longrightarrow> ch_closed (WriteChannel s) \<Longrightarrow>
   WritePacket_iter now s = (Ret (), s)"
  by (simp add: WritePacket_iter_def chan_recv_def)

lemma WritePacket_iter_empty_open:
  "ch_buf (WriteChannel s) = [] \<Longrightarrow> \<not> ch_closed (WriteChannel s) \<Longrightarrow>
   WritePacket_iter now s = (Blocked, s)"
  by (simp add: WritePacket_iter_def chan_recv_def)

lemma Close_lasttime: "lasttime (snd (Close s)) = lasttime s"
  by (simp add: Close_def Let_def split: option.splits)

lemma write0_loop_unfold:
  assumes "r = bw_Write (bw s, conn s) (drop l batch)"
    and "s1 = s\<lparr>bw := fst (snd r), conn := snd (snd r)\<rparr>"
    and "s2 = (if snd (fst r) = Some ErrShortWrite then s1\<lparr>bw := bw_Reset (bw s1)\<rparr> else s1)"
  shows "write0_loop s batch l =
     (if snd (fst r) \<noteq> None \<and> snd (fst r) \<noteq> Some ErrShortWrite
      then (case Close s1 of
              (Ret x, s2) \<Rightarrow> (Ret False, s2)
            | (Panic q, s2) \<Rightarrow> (Panic q, s2)
            | (Blocked, s2) \<Rightarrow> (Blocked, s2))
      else if l + fst (fst r) = length batch then (Ret True, s2)
      else if l + fst (fst r) > length batch then (Panic SliceBoundsOutOfRange, s2)
      else write0_loop s2 batch (l + fst (fst r)))"
  unfolding assms by (subst write0_loop.simps) (simp only: Let_def)

lemma write0_loop_lasttime: "lasttime (snd (write0_loop s batch l)) = lasttime s"
proof (induction s batch l rule: write0_loop.induct)
  case (1 s batch l)
  define r where "r = bw_Write (bw s, conn s) (drop l batch)"
  define s1 where "s1 = s\<lparr>bw := fst (snd r), conn := snd (snd r)\<rparr>"
  define s2 where "s2 = (if snd (fst r) = Some ErrShortWrite then s1\<lparr>bw := bw_Reset (bw s1)\<rparr> else s1)"
  note unfold = write0_loop_unfold [OF r_def s1_def s2_def]
  have l1: "lasttime s1 = lasttime s" by (simp add: s1_def)
  have l2: "lasttime s2 = lasttime s" by (simp add: s2_def s1_def)
  consider (close) "snd (fst r) \<noteq> None \<and> snd (fst r) \<noteq> Some ErrShortWrite"
    | (finished) "\<not> (snd (fst r) \<noteq> None \<and> snd (fst r) \<noteq> Some ErrShortWrite)"
        "l + fst (fst r) = length batch"
    | (bounds) "\<not> (snd (fst r) \<noteq> None \<and> snd (fst r) \<noteq> Some ErrShortWrite)"
        "l + fst (fst r) \<noteq> length batch" "l + fst (fst r) > length batch"
    | (again) "\<not> (snd (fst r) \<noteq> None \<and> snd (fst r) \<noteq> Some ErrShortWrite)"
        "l + fst (fst r) \<noteq> length batch" "\<not> l + fst (fst r) > length batch"
    by blast
  then show ?case
  proof cases
    case close
    then have "snd (write0_loop s batch l) = snd (Close s1)"
      unfolding unfold by (auto split: prod.splits outcome.splits)
    then show ?thesis using Close_lasttime [of s1] l1 by simp
  next
    case finished
    then have "write0_loop s batch l = (Ret True, s2)"
      unfolding unfold by auto
    then show ?thesis using l2 by simp
  next
    case bounds
    then have "write0_loop s batch l = (Panic SliceBoundsOutOfRange, s2)"
      unfolding unfold by auto
    then show ?thesis using l2 by simp
  next
    case again
    then have eq: "write0_loop s batch l = write0_loop s2 batch (l + fst (fst r))"
      unfolding unfold by auto
    have "lasttime (snd (write0_loop s2 batch (l + fst (fst r)))) = lasttime s2"
      using again by (intro "1.IH" [OF r_def refl refl s1_def _ s2_def]) auto
    then show ?thesis using eq l2 by simp
  qed
qed

lemma write0_lasttime: "lasttime (snd (write0 s tlv)) = lasttime s"
proof -
  have "lasttime (snd (write0_loop s (write0_batch (frameCodec s) tlv) 0)) = lasttime s"
    by (rule write0_loop_lasttime)
  then show ?thesis
    by (auto simp: write0_def Let_def split: prod.splits outcome.splits bool.splits option.splits)
qed

lemmas eval_defs =
  WritePacket_iter_def sample_session_def chan_recv_def chan_send_def
  write0_def write0_batch_def sample_codec_def sample_packet_def sample_pkg_def
  bw_Write_def NewWriterSize_def Available_def conn_Write_def
  sample_conn_def Close_def bw_Flush_def bw_Reset_def sample_rc_def Let_def Incr_def
  Write_def read0_def ReadPacket_body_def ReadPacket_iter_def

subsection \<open>The last-activity timestamp\<close>

text \<open>
  Claim C8 as stated fails: the timestamp is also set after a write that failed. In this
  round the connection refuses the write, \<^verbatim>\<open>write0\<close> closes the session with nothing on the
  wire, and \<^verbatim>\<open>lasttime\<close> still moves from 0 to the clock reading 7. With the threshold of
  10 the session was idle at time 15 before the round and is not idle at 15 after it,
  although no write has succeeded.
\<close>
theorem lasttime_failed_write_counterexample:
  "fst (WritePacket_iter 7 failing_write_session) = Ret ()
   \<and> isClose (snd (WritePacket_iter 7 failing_write_session))
   \<and> wire (conn (snd (WritePacket_iter 7 failing_write_session))) = []
   \<and> lasttime failing_write_session = 0
   \<and> lasttime (snd (WritePacket_iter 7 failing_write_session)) = 7
   \<and> Idle 15 failing_write_session
   \<and> \<not> Idle 15 (snd (WritePacket_iter 7 failing_write_session))"
  by (simp add: failing_write_session_def eval_defs write0_loop.simps bw_Write_loop.simps
      Idle_def)

text \<open>
  Claim C8, amended. A round of the write loop that returns sets \<^verbatim>\<open>lasttime\<close> to the
  clock reading exactly when it received at least one non-nil packet, whatever
  \<^verbatim>\<open>write0\<close> did with the batch (written, failed and session closed, or nothing to
  write), and leaves it alone otherwise. \<^verbatim>\<open>Idle\<close> at \<open>t\<close> is true iff \<open>t\<close> is after
  \<^verbatim>\<open>lasttime\<close> plus \<^verbatim>\<open>IdleTime\<close>; with a non-negative \<^verbatim>\<open>IdleTime\<close> it is false at the
  instant of the update.
\<close>
theorem WritePacket_iter_lasttime:
  assumes "WritePacket_iter now s = (Ret (), s')"
  shows "lasttime s' =
           (if non_nil (take 101 (ch_buf (WriteChannel s))) \<noteq> [] then now else lasttime s)
       \<and> Idle t s' = (t > lasttime s' + sint (IdleTime (rc s')))
       \<and> (non_nil (take 101 (ch_buf (WriteChannel s))) \<noteq> [] \<and> 0 \<le> sint (IdleTime (rc s'))
            \<longrightarrow> \<not> Idle now s')"
proof -
  have l: "lasttime s' =
           (if non_nil (take 101 (ch_buf (WriteChannel s))) \<noteq> [] then now else lasttime s)"
  proof (cases "ch_buf (WriteChannel s) = []")
    case True
    then have "WritePacket_iter now s = (Ret (), s) \<or> WritePacket_iter now s = (Blocked, s)"
      using WritePacket_iter_empty_closed [of s now] WritePacket_iter_empty_open [of s now]
      by blast
    then show ?thesis using assms True by auto
  next
    case False
    let ?s1 = "s\<lparr>WriteChannel := (WriteChannel s)\<lparr>ch_buf := drop 101 (ch_buf (WriteChannel s))\<rparr>\<rparr>"
    let ?ps = "non_nil (take 101 (ch_buf (WriteChannel s)))"
    show ?thesis
    proof (cases "?ps = []")
      case True
      then have "WritePacket_iter now s = (Ret (), ?s1)"
        using WritePacket_iter_nonempty [OF False, of now] by simp
      then show ?thesis using assms True by auto
    next
      case ne: False
      obtain o2 s2 where w: "write0 ?s1 ?ps = (o2, s2)" by (cases "write0 ?s1 ?ps")
      have "lasttime s2 = lasttime ?s1"
        using write0_lasttime [of ?s1 ?ps] w by simp
      have "WritePacket_iter now s =
          (case o2 of Ret x \<Rightarrow> (Ret (), s2\<lparr>lasttime := now\<rparr>) | Panic q \<Rightarrow> (Panic q, s2)
            | Blocked \<Rightarrow> (Blocked, s2))"
        using WritePacket_iter_nonempty [OF False, of now] ne w by simp
      then have "s' = s2\<lparr>lasttime := now\<rparr>"
        using assms by (cases o2) auto
      then show ?thesis using ne by simp
    qed
  qed
  then show ?thesis by (auto simp: Idle_def)
qed

lemma queued_eval:
  "WritePacket_iter 7 queued_session3 =
    (Ret (),
     (sample_session [] [])
       \<lparr>WriteChannel := \<lparr>ch_buf = [], ch_cap = 3, ch_closed = False\<rparr>,
        conn := (sample_conn [] [])\<lparr>wire := [1, 2, 3]\<rparr>,
        lasttime := 7,
        rc := sample_rc\<lparr>FlowStat := Some \<lparr>Connections = 1, ReadFlow = 0, ReadBytesFlow = 0,
                        WriteFlow = 3, WriteBytesFlow = 3\<rparr>\<rparr>\<rparr>)"
  by (simp add: queued_session3_def queued_session_def eval_defs write0_loop.simps bw_Write_loop.simps)

theorem WritePacket_iter_lasttime_witness:
  "WritePacket_iter 7 queued_session3 = (Ret (), snd (WritePacket_iter 7 queued_session3))
   \<and> lasttime (snd (WritePacket_iter 7 queued_session3)) = 7
   \<and> \<not> Idle 7 (snd (WritePacket_iter 7 queued_session3))
   \<and> \<not> Idle 17 (snd (WritePacket_iter 7 queued_session3))
   \<and> Idle 18 (snd (WritePacket_iter 7 queued_session3))"
proof -
  let ?s' = "snd (WritePacket_iter 7 queued_session3)"
  have a: "WritePacket_iter 7 queued_session3 = (Ret (), ?s')"
    by (simp add: queued_eval)
  have b: "non_nil (take 101 (ch_buf (WriteChannel queued_session3))) \<noteq> []"
    by (simp add: queued_session3_def queued_session_def eval_defs)
  have c: "sint (IdleTime (rc ?s')) = 10"
    by (simp add: queued_eval sample_rc_def)
  from WritePacket_iter_lasttime [OF a, of 7] WritePacket_iter_lasttime [OF a, of 17]
    WritePacket_iter_lasttime [OF a, of 18] a b c
  show ?thesis by simp
qed

subsection \<open>Batches on a connection that takes every write\<close>

lemma write0_batch_foldl:
  "foldl (\<lambda>batch t.
              if snd (MarshalPacket fc t) \<noteq> None \<or> length (fst (MarshalPacket fc t)) \<le> 0
              then batch
              else batch @ fst (MarshalPacket fc t)) acc tlv
   = acc @ concat (map (\<lambda>t. fst (MarshalPacket fc t)) (filter (encodes fc) tlv))"
  by (induction tlv arbitrary: acc) (auto simp: encodes_def)

lemma write0_batch_eq:
  "write0_batch fc tlv = concat (map (\<lambda>t. fst (MarshalPacket fc t)) (filter (encodes fc) tlv))"
  unfolding write0_batch_def using write0_batch_foldl [of fc "[]" tlv] by simp

lemma conn_Write_good:
  "wscript c = [] \<Longrightarrow> \<not> conn_closed c \<Longrightarrow> conn_Write c p = ((length p, None), c\<lparr>wire := wire c @ p\<rparr>)"
  by (simp add: conn_Write_def)

lemma bw_Write_loop_good:
  assumes "wscript c = []" and "\<not> conn_closed c" and "bw_err b = None"
  shows "fst (bw_Write_loop b c p nn) = (nn + length p, None)
       \<and> bw_err (fst (snd (bw_Write_loop b c p nn))) = None
       \<and> bw_size (fst (snd (bw_Write_loop b c p nn))) = bw_size b
       \<and> snd (snd (bw_Write_loop b c p nn)) = c\<lparr>wire := wire (snd (snd (bw_Write_loop b c p nn)))\<rparr>
       \<and> wire (snd (snd (bw_Write_loop b c p nn))) @ bw_buf (fst (snd (bw_Write_loop b c p nn)))
           = wire c @ bw_buf b @ p"
  using assms
proof (induction b c p nn rule: bw_Write_loop.induct)
  case (1 b c p nn)
  consider (direct) "length p > Available b" "bw_buf b = []"
    | (flush) "length p > Available b" "bw_buf b \<noteq> []"
    | (fits) "length p \<le> Available b"
    by fastforce
  then show ?case
  proof cases
    case direct
    have cw: "conn_Write c p = ((length p, None), c\<lparr>wire := wire c @ p\<rparr>)"
      using "1.prems" by (simp add: conn_Write_good)
    have same: "b\<lparr>bw_err := None\<rparr> = b"
      using "1.prems"(3) by (cases b) auto
    have eq: "bw_Write_loop b c p nn = bw_Write_loop b (c\<lparr>wire := wire c @ p\<rparr>) [] (nn + length p)"
      using direct "1.prems" by (simp add: bw_Write_loop_direct cw same)
    have "bw_Write_loop b (c\<lparr>wire := wire c @ p\<rparr>) [] (nn + length p)
        = ((nn + length p, None), b, c\<lparr>wire := wire c @ p\<rparr>)"
      using "1.prems" by (simp add: bw_Write_loop_fits)
    then show ?thesis using eq direct "1.prems" by simp
  next
    case flush
    define b1 where "b1 = b\<lparr>bw_buf := bw_buf b @ take (Available b) p\<rparr>"
    define b2 where "b2 = b1\<lparr>bw_buf := []\<rparr>"
    define c1 where "c1 = c\<lparr>wire := wire c @ bw_buf b @ take (Available b) p\<rparr>"
    define res where "res = bw_Write_loop b2 c1 (drop (Available b) p) (nn + Available b)"
    have fl: "bw_Flush (b1, c) = (None, b2, c1)"
      using "1.prems" flush
      by (simp add: bw_Flush_def conn_Write_good Let_def b1_def b2_def c1_def)
    have eq: "bw_Write_loop b c p nn = res"
      using flush "1.prems" fl unfolding res_def b1_def
      by (simp add: bw_Write_loop_flush)
    have pre: "wscript c1 = []" "\<not> conn_closed c1" "bw_err b2 = None"
      using "1.prems" by (simp_all add: c1_def b2_def b1_def)
    have IH: "fst res = (nn + Available b + length (drop (Available b) p), None)
       \<and> bw_err (fst (snd res)) = None
       \<and> bw_size (fst (snd res)) = bw_size b2
       \<and> snd (snd res) = c1\<lparr>wire := wire (snd (snd res))\<rparr>
       \<and> wire (snd (snd res)) @ bw_buf (fst (snd res))
           = wire c1 @ bw_buf b2 @ drop (Available b) p"
      using "1.IH"(2) [folded b1_def, unfolded fl, simplified, folded res_def] flush "1.prems" pre
      by simp
    have len: "nn + Available b + length (drop (Available b) p) = nn + length p"
      using flush by simp
    have w: "wire c1 @ bw_buf b2 @ drop (Available b) p = wire c @ bw_buf b @ p"
      by (simp add: c1_def b2_def)
    have c: "c1\<lparr>wire := wire (snd (snd res))\<rparr> = c\<lparr>wire := wire (snd (snd res))\<rparr>"
      by (simp add: c1_def)
    have sz: "bw_size b2 = bw_size b" by (simp add: b2_def b1_def)
    show ?thesis
      unfolding eq using IH len w c sz by simp
  next
    case fits
    then show ?thesis using "1.prems" by (simp add: bw_Write_loop_fits)
  qed
qed


lemma write0_loop_good:
  assumes "wscript (conn s) = []" and "\<not> conn_closed (conn s)" and "bw_err (bw s) = None"
  shows "write0_loop s batch 0 =
           (Ret True, s\<lparr>bw := fst (snd (bw_Write (bw s, conn s) batch)),
                         conn := snd (snd (bw_Write (bw s, conn s) batch))\<rparr>)"
proof -
  define r where "r = bw_Write (bw s, conn s) (drop 0 batch)"
  define s1 where "s1 = s\<lparr>bw := fst (snd r), conn := snd (snd r)\<rparr>"
  define s2 where "s2 = (if snd (fst r) = Some ErrShortWrite then s1\<lparr>bw := bw_Reset (bw s1)\<rparr> else s1)"
  have "fst r = (0 + length batch, None)"
    using bw_Write_loop_good [OF assms, of batch 0] by (simp add: r_def bw_Write_def)
  then have "snd (fst r) = None" "fst (fst r) = length batch" by simp_all
  then have "write0_loop s batch 0 = (Ret True, s1)"
    unfolding write0_loop_unfold [OF r_def s1_def s2_def] by (simp add: s2_def)
  then show ?thesis by (simp add: s1_def r_def)
qed

lemma write0_good:
  assumes "wscript (conn s) = []" and "\<not> conn_closed (conn s)"
    and "bw_err (bw s) = None" and "bw_buf (bw s) = []"
  shows "fst (write0 s tlv) = Ret ()
       \<and> wire (conn (snd (write0 s tlv))) = wire (conn s) @ write0_batch (frameCodec s) tlv
       \<and> bw_buf (bw (snd (write0 s tlv))) = []
       \<and> bw_err (bw (snd (write0 s tlv))) = None
       \<and> wscript (conn (snd (write0 s tlv))) = []
       \<and> \<not> conn_closed (conn (snd (write0 s tlv)))
       \<and> isClose (snd (write0 s tlv)) = isClose s
       \<and> WriteChannel (snd (write0 s tlv)) = WriteChannel s"
proof (cases "write0_batch (frameCodec s) tlv = []")
  case True
  then show ?thesis using assms by (simp add: write0_def)
next
  case False
  define batch where "batch = write0_batch (frameCodec s) tlv"
  define r where "r = bw_Write_loop (bw s) (conn s) batch 0"
  define s1 where "s1 = s\<lparr>bw := fst (snd r), conn := snd (snd r)\<rparr>"
  define fl where "fl = bw_Flush (bw s1, conn s1)"
  define s2 where "s2 = s1\<lparr>bw := fst (snd fl), conn := snd (snd fl)\<rparr>"
  have g: "bw_err (fst (snd r)) = None"
      "snd (snd r) = (conn s)\<lparr>wire := wire (snd (snd r))\<rparr>"
      "wire (snd (snd r)) @ bw_buf (fst (snd r)) = wire (conn s) @ batch"
    using bw_Write_loop_good [OF assms(1-3), of batch 0] assms(4) by (simp_all add: r_def)
  have c1: "wscript (snd (snd r)) = []" "\<not> conn_closed (snd (snd r))"
    using g(2) assms(1,2) by (metis conn.select_convs(4) conn.surjective conn.update_convs(3),
        metis conn.select_convs(5) conn.surjective conn.update_convs(3))
  have loop: "write0_loop s batch 0 = (Ret True, s1)"
    using write0_loop_good [OF assms(1-3), of batch] by (simp add: s1_def r_def bw_Write_def)
  have flw: "wire (snd (snd fl)) = wire (conn s) @ batch \<and> bw_buf (fst (snd fl)) = []
       \<and> bw_err (fst (snd fl)) = None \<and> wscript (snd (snd fl)) = [] \<and> \<not> conn_closed (snd (snd fl))"
    using g c1 by (auto simp: fl_def s1_def bw_Flush_def Let_def conn_Write_good)
  have "write0 s tlv =
      (Ret (), (case FlowStat (rc s2) of None \<Rightarrow> s2
         | Some fs \<Rightarrow> s2\<lparr>rc := (rc s2)\<lparr>FlowStat := Some
              (fs\<lparr>WriteFlow := Incr (WriteFlow fs) (of_nat (length tlv)),
                  WriteBytesFlow := Incr (WriteBytesFlow fs) (of_nat (length batch))\<rparr>)\<rparr>\<rparr>))"
    using False loop unfolding write0_def batch_def [symmetric]
    by (simp add: Let_def s2_def fl_def split: option.splits)
  then show ?thesis
    using flw by (simp add: s2_def s1_def batch_def split: option.splits)
qed

text \<open>
  Claim C4. On a connection that takes every write (no scripted failure, not closed, no
  sticky error, nothing buffered) a round of the write loop over a non-empty channel
  receives the first 101 elements at most, in channel order, and what reaches the wire is
  exactly the encodings of the non-nil packets among them whose encoding succeeded and
  is non-empty, concatenated in that order; the other packets are left out and the rest
  of the batch is written all the same. Nothing stays in the write buffer.
\<close>
theorem WritePacket_iter_wire:
  assumes "ch_buf (WriteChannel s) \<noteq> []"
    and "wscript (conn s) = []" and "\<not> conn_closed (conn s)"
    and "bw_err (bw s) = None" and "bw_buf (bw s) = []"
  shows "fst (WritePacket_iter now s) = Ret ()
       \<and> wire (conn (snd (WritePacket_iter now s))) =
           wire (conn s) @ concat (map (\<lambda>t. fst (MarshalPacket (frameCodec s) t))
             (filter (encodes (frameCodec s)) (non_nil (take 101 (ch_buf (WriteChannel s))))))
       \<and> bw_buf (bw (snd (WritePacket_iter now s))) = []
       \<and> ch_buf (WriteChannel (snd (WritePacket_iter now s))) = drop 101 (ch_buf (WriteChannel s))
       \<and> isClose (snd (WritePacket_iter now s)) = isClose s"
proof -
  define s1 where "s1 = s\<lparr>WriteChannel := (WriteChannel s)\<lparr>ch_buf := drop 101 (ch_buf (WriteChannel s))\<rparr>\<rparr>"
  define ps where "ps = non_nil (take 101 (ch_buf (WriteChannel s)))"
  have it: "WritePacket_iter now s =
     (if ps \<noteq> [] then
        (case write0 s1 ps of
           (Ret x, s2) \<Rightarrow> (Ret (), s2\<lparr>lasttime := now\<rparr>)
         | (Panic q, s2) \<Rightarrow> (Panic q, s2)
         | (Blocked, s2) \<Rightarrow> (Blocked, s2))
      else (Ret (), s1))"
    unfolding s1_def ps_def by (rule WritePacket_iter_nonempty [OF assms(1)])
  have pre: "wscript (conn s1) = []" "\<not> conn_closed (conn s1)" "bw_err (bw s1) = None"
      "bw_buf (bw s1) = []"
    using assms(2-5) by (simp_all add: s1_def)
  note w = write0_good [OF pre, of ps]
  show ?thesis
  proof (cases "ps = []")
    case True
    then show ?thesis
      using it assms(5) by (simp add: s1_def ps_def [symmetric])
  next
    case False
    obtain s2 where s2: "write0 s1 ps = (Ret (), s2)"
      using w by (cases "write0 s1 ps") auto
    then have "WritePacket_iter now s = (Ret (), s2\<lparr>lasttime := now\<rparr>)"
      using it False by simp
    then show ?thesis
      using w s2 by (simp add: write0_batch_eq ps_def [symmetric] s1_def)
  qed
qed

theorem WritePacket_iter_wire_witness:
  "ch_buf (WriteChannel queued_session3)
     = [Some (sample_packet [1, 2]), Some (sample_packet [0]), Some (sample_packet [3])]
   \<and> MarshalPacket sample_codec (sample_packet [1, 2]) = ([1, 2], None)
   \<and> MarshalPacket sample_codec (sample_packet [0]) = ([], Some (ErrNew ''bad packet''))
   \<and> MarshalPacket sample_codec (sample_packet [3]) = ([3], None)
   \<and> fst (WritePacket_iter 7 queued_session3) = Ret ()
   \<and> wire (conn (snd (WritePacket_iter 7 queued_session3))) = [1, 2, 3]
   \<and> ch_buf (WriteChannel (snd (WritePacket_iter 7 queued_session3))) = []"
proof -
  have buf: "ch_buf (WriteChannel queued_session3)
     = [Some (sample_packet [1, 2]), Some (sample_packet [0]), Some (sample_packet [3])]"
    by (simp add: queued_session3_def queued_session_def eval_defs)
  have pre: "ch_buf (WriteChannel queued_session3) \<noteq> []"
    "wscript (conn queued_session3) = []" "\<not> conn_closed (conn queued_session3)"
    "bw_err (bw queued_session3) = None" "bw_buf (bw queued_session3) = []"
    by (simp_all add: queued_session3_def queued_session_def eval_defs)
  have enc: "MarshalPacket sample_codec (sample_packet [1, 2]) = ([1, 2], None)"
    "MarshalPacket sample_codec (sample_packet [0]) = ([], Some (ErrNew ''bad packet''))"
    "MarshalPacket sample_codec (sample_packet [3]) = ([3], None)"
    by (simp_all add: sample_codec_def sample_packet_def)
  have fc: "frameCodec queued_session3 = sample_codec" "wire (conn queued_session3) = []"
    by (simp_all add: queued_session3_def queued_session_def Write_def sample_session_def
        sample_conn_def)
  from WritePacket_iter_wire [OF pre, of 7] buf enc fc
  show ?thesis by (simp add: encodes_def)
qed

section \<open>The read pipeline\<close>

lemma Close_no_panic:
  "wf_session s \<Longrightarrow> FlowStat (rc s) \<noteq> None \<Longrightarrow> fst (Close s) = Ret None"
  by (auto simp: Close_def Let_def wf_session_def)

lemma Close_cases:
  obtains (ret) s' where "Close s = (Ret None, s')" "isClose s'"
  | (panic) q s' where "Close s = (Panic q, s')" "isClose s'"
      "\<not> (wf_session s \<and> FlowStat (rc s) \<noteq> None)"
proof (cases "fst (Close s)")
  case (Ret x)
  then have "x = None" by (auto simp: Close_def Let_def split: if_splits option.splits)
  with Ret have "Close s = (Ret None, snd (Close s))" by (metis prod.collapse)
  then show ?thesis using ret Close_isClose by blast
next
  case (Panic q)
  then have "Close s = (Panic q, snd (Close s))" by (metis prod.collapse)
  moreover have "\<not> (wf_session s \<and> FlowStat (rc s) \<noteq> None)"
  proof
    assume "wf_session s \<and> FlowStat (rc s) \<noteq> None"
    then have "fst (Close s) = Ret None" by (simp add: Close_no_panic)
    with Panic show False by simp
  qed
  ultimately show ?thesis using panic Close_isClose by blast
next
  case Blocked
  then show ?thesis by (auto simp: Close_def Let_def split: if_splits option.splits)
qed

lemma read0_loop_unfold:
  assumes "r = br_Read (rstream (conn s)) (length buff - idx)"
    and "s1 = s\<lparr>conn := (conn s)\<lparr>rstream := snd r\<rparr>\<rparr>"
  shows "read0_loop s buff idx =
     (case snd (fst r) of
        Some e \<Rightarrow>
          (case Close s1 of
             (Ret x, s2) \<Rightarrow> (Ret ([], Some e), s2)
           | (Panic q, s2) \<Rightarrow> (Panic q, s2)
           | (Blocked, s2) \<Rightarrow> (Blocked, s2))
      | None \<Rightarrow>
          (if idx + length (fst (fst r)) \<ge> length buff
           then (Ret (take idx buff @ fst (fst r) @ drop (idx + length (fst (fst r))) buff, None), s1)
           else read0_loop s1 (take idx buff @ fst (fst r) @ drop (idx + length (fst (fst r))) buff)
                  (idx + length (fst (fst r)))))"
  unfolding assms by (subst read0_loop.simps) (simp only: Let_def)

lemma read0_loop_ok: "read_ok s (length buff) (read0_loop s buff idx)"
proof (induction s buff idx rule: read0_loop.induct)
  case (1 s buff idx)
  define r where "r = br_Read (rstream (conn s)) (length buff - idx)"
  define s1 where "s1 = s\<lparr>conn := (conn s)\<lparr>rstream := snd r\<rparr>\<rparr>"
  define buff' where "buff' = take idx buff @ fst (fst r) @ drop (idx + length (fst (fst r))) buff"
  note unfold = read0_loop_unfold [OF r_def s1_def, folded buff'_def]
  have len: "length buff' = length buff"
    using br_Read_length_le [of "rstream (conn s)" "length buff - idx"]
    by (auto simp: buff'_def r_def)
  have wf1: "wf_session s1 = wf_session s" "FlowStat (rc s1) = FlowStat (rc s)"
    by (simp_all add: s1_def wf_session_def)
  have fr: "s1 = s\<lparr>conn := (conn s)\<lparr>rstream := rstream (conn s1)\<rparr>\<rparr>"
    by (simp add: s1_def)
  show ?case
  proof (cases "snd (fst r)")
    case (Some e)
    show ?thesis
    proof (cases s1 rule: Close_cases)
      case (ret s')
      then show ?thesis using Some unfolding unfold by (simp add: read_ok_def)
    next
      case (panic q s')
      then show ?thesis using Some wf1 unfolding unfold by (simp add: read_ok_def)
    qed
  next
    case None
    show ?thesis
    proof (cases "idx + length (fst (fst r)) \<ge> length buff")
      case True
      then show ?thesis using None len fr unfolding unfold by (simp add: read_ok_def)
    next
      case False
      have IH: "read_ok s1 (length buff') (read0_loop s1 buff' (idx + length (fst (fst r))))"
        using "1.IH" [OF r_def refl s1_def None] False unfolding buff'_def by simp
      have eq: "read0_loop s buff idx = read0_loop s1 buff' (idx + length (fst (fst r)))"
        using None False unfolding unfold by simp
      obtain res s' where res: "read0_loop s1 buff' (idx + length (fst (fst r))) = (res, s')"
        by (cases "read0_loop s1 buff' (idx + length (fst (fst r)))")
      have "s' = s1\<lparr>conn := (conn s1)\<lparr>rstream := rstream (conn s')\<rparr>\<rparr>
            \<Longrightarrow> s' = s\<lparr>conn := (conn s)\<lparr>rstream := rstream (conn s')\<rparr>\<rparr>"
        by (simp add: s1_def)
      then show ?thesis
        using IH wf1 len unfolding eq res read_ok_def
        by (auto split: outcome.splits prod.splits option.splits)
    qed
  qed
qed

lemma read0_ok: "0 \<le> n \<Longrightarrow> read_ok s (nat n) (read0 s n)"
  using read0_loop_ok [of s "replicate (nat n) 0" 0] by (simp add: read0_def)

lemma read0_negative: "n < 0 \<Longrightarrow> read0 s n = (Panic MakeSliceLenOutOfRange, s)"
  by (simp add: read0_def)

lemma read0_Ret_frame:
  assumes "read0 s n = (Ret (buf, None), s')"
  shows "0 \<le> n \<and> int (length buf) = n \<and> s' = s\<lparr>conn := (conn s)\<lparr>rstream := rstream (conn s')\<rparr>\<rparr>"
proof -
  have n: "0 \<le> n"
    using assms read0_negative [of n s] by (cases "n < 0") auto
  then show ?thesis
    using read0_ok [OF n, of s] assms by (simp add: read_ok_def)
qed

lemma ReadPacket_continue:
  "\<not> isClose s \<Longrightarrow> ReadPacket_iter pk s = (Ret None, s') \<Longrightarrow> ReadPacket pk s = ReadPacket pk s'"
  by (subst ReadPacket.simps) simp

subsection \<open>A packet the codec cannot decode\<close>

text \<open>
  Claim C7. When the header was read and decoded, its \<^verbatim>\<open>BodyLen\<close> is within the maximum,
  the body was read in full and \<^verbatim>\<open>UnmarshalPacket\<close> fails, the round returns nil and the
  session it leaves differs from the one it found in the unread input only: it is not
  closed, nothing was published, no counter moved. The loop then runs on exactly as a
  loop started on that session: the packets that follow are processed as usual.
\<close>
theorem decode_failure_continues:
  assumes "\<not> isClose s"
    and "read0 s (PACKET_HEAD_LEN pk) = (Ret (buff, None), s1)"
    and "UnmarshalHeader pk buff = (head, None)"
    and "\<not> sint (BodyLen head) > MAX_PACKET_BYTES pk"
    and "read0 s1 (sint (BodyLen head)) = (Ret (body, None), s2)"
    and "UnmarshalPacket (frameCodec s2) \<lparr>Header = head, Data = body\<rparr> = (x, Some e)"
  shows "ReadPacket_iter pk s = (Ret None, s2)
       \<and> s2 = s\<lparr>conn := (conn s)\<lparr>rstream := rstream (conn s2)\<rparr>\<rparr>
       \<and> \<not> isClose s2
       \<and> ReadChannel s2 = ReadChannel s
       \<and> rc s2 = rc s
       \<and> ReadPacket pk s = ReadPacket pk s2"
proof -
  have it: "ReadPacket_iter pk s = (Ret None, s2)"
    using assms(2-6) by (simp add: ReadPacket_iter_def ReadPacket_body_def)
  have f1: "s1 = s\<lparr>conn := (conn s)\<lparr>rstream := rstream (conn s1)\<rparr>\<rparr>"
    using read0_Ret_frame [OF assms(2)] by simp
  have f2: "s2 = s1\<lparr>conn := (conn s1)\<lparr>rstream := rstream (conn s2)\<rparr>\<rparr>"
    using read0_Ret_frame [OF assms(5)] by simp
  have f: "s2 = s\<lparr>conn := (conn s)\<lparr>rstream := rstream (conn s2)\<rparr>\<rparr>"
    by (subst f2, subst (1 2) f1) simp
  have "isClose s2 = isClose s \<and> ReadChannel s2 = ReadChannel s \<and> rc s2 = rc s"
    by (subst (1 2 3) f) simp
  then show ?thesis
    using it f assms(1) ReadPacket_continue [OF assms(1) it] by simp
qed

lemma sample_read_tail:
  "ReadPacket sample_pkg (sample_session [([1], None), ([5], None)] []) = Some (Ret (), sample_final)"
  by (simp add: ReadPacket.simps eval_defs read0_loop.simps sample_final_def)

theorem decode_failure_continues_witness:
  "ReadPacket_iter sample_pkg (sample_session [([1, 0], None), ([1], None), ([5], None)] [])
     = (Ret None, sample_session [([1], None), ([5], None)] [])
   \<and> \<not> isClose (sample_session [([1], None), ([5], None)] [])
   \<and> ReadPacket sample_pkg (sample_session [([1, 0], None), ([1], None), ([5], None)] [])
     = Some (Ret (), sample_final)"
proof -
  let ?s = "sample_session [([1, 0], None), ([1], None), ([5], None)] []"
  let ?s1 = "sample_session [([0], None), ([1], None), ([5], None)] []"
  let ?s2 = "sample_session [([1], None), ([5], None)] []"
  have a: "\<not> isClose ?s" by (simp add: sample_session_def)
  have b: "read0 ?s (PACKET_HEAD_LEN sample_pkg) = (Ret ([1], None), ?s1)"
    by (simp add: eval_defs read0_loop.simps)
  have c: "UnmarshalHeader sample_pkg [1] = (\<lparr>BodyLen = 1\<rparr>, None)"
    by (simp add: sample_pkg_def)
  have d: "\<not> sint (BodyLen \<lparr>BodyLen = 1\<rparr>) > MAX_PACKET_BYTES sample_pkg"
    by (simp add: sample_pkg_def)
  have e: "read0 ?s1 (sint (BodyLen \<lparr>BodyLen = 1\<rparr>)) = (Ret ([0], None), ?s2)"
    by (simp add: eval_defs read0_loop.simps)
  have f: "UnmarshalPacket (frameCodec ?s2) \<lparr>Header = \<lparr>BodyLen = 1\<rparr>, Data = [0]\<rparr>
      = (None, Some (ErrNew ''bad body''))"
    by (simp add: sample_session_def sample_codec_def)
  from decode_failure_continues [OF a b c d e f] sample_read_tail
  show ?thesis by simp
qed

subsection \<open>A header that declares too large a body\<close>

text \<open>
  Claim C1, on the code. When the decoded header declares a \<^verbatim>\<open>BodyLen\<close> above
  \<^verbatim>\<open>MAX_PACKET_BYTES\<close> the round returns nil (line 95 returns the \<^verbatim>\<open>err\<close> of line 86, which
  is nil), \<^verbatim>\<open>Close\<close> is not called, and the loop goes on from the byte after the header. In the
  evaluated run the header byte 9 exceeds the maximum 4; the loop then reads the next
  bytes as the header 1 and the body \<open>[5]\<close> and publishes that packet.
\<close>
theorem oversize_header_continues:
  assumes "\<not> isClose s"
    and "read0 s (PACKET_HEAD_LEN pk) = (Ret (buff, None), s1)"
    and "UnmarshalHeader pk buff = (head, None)"
    and "sint (BodyLen head) > MAX_PACKET_BYTES pk"
  shows "ReadPacket_iter pk s = (Ret None, s1)
       \<and> s1 = s\<lparr>conn := (conn s)\<lparr>rstream := rstream (conn s1)\<rparr>\<rparr>
       \<and> \<not> isClose s1
       \<and> ReadPacket pk s = ReadPacket pk s1"
proof -
  have it: "ReadPacket_iter pk s = (Ret None, s1)"
    using assms(2-4) by (simp add: ReadPacket_iter_def ReadPacket_body_def)
  have f: "s1 = s\<lparr>conn := (conn s)\<lparr>rstream := rstream (conn s1)\<rparr>\<rparr>"
    using read0_Ret_frame [OF assms(2)] by simp
  have "isClose s1 = isClose s"
    by (subst f) simp
  then show ?thesis
    using it f assms(1) ReadPacket_continue [OF assms(1) it] by simp
qed

theorem oversize_header_continues_witness:
  "UnmarshalHeader sample_pkg [9] = (\<lparr>BodyLen = 9\<rparr>, None)
   \<and> MAX_PACKET_BYTES sample_pkg < sint (BodyLen \<lparr>BodyLen = 9\<rparr>)
   \<and> ReadPacket_iter sample_pkg (sample_session [([9], None), ([1], None), ([5], None)] [])
     = (Ret None, sample_session [([1], None), ([5], None)] [])
   \<and> \<not> isClose (sample_session [([1], None), ([5], None)] [])
   \<and> ReadPacket sample_pkg (sample_session [([9], None), ([1], None), ([5], None)] [])
     = Some (Ret (), sample_final)"
proof -
  let ?s = "sample_session [([9], None), ([1], None), ([5], None)] []"
  let ?s1 = "sample_session [([1], None), ([5], None)] []"
  have a: "\<not> isClose ?s" by (simp add: sample_session_def)
  have b: "read0 ?s (PACKET_HEAD_LEN sample_pkg) = (Ret ([9], None), ?s1)"
    by (simp add: eval_defs read0_loop.simps)
  have c: "UnmarshalHeader sample_pkg [9] = (\<lparr>BodyLen = 9\<rparr>, None)"
    by (simp add: sample_pkg_def)
  have d: "sint (BodyLen \<lparr>BodyLen = 9\<rparr>) > MAX_PACKET_BYTES sample_pkg"
    by (simp add: sample_pkg_def)
  from oversize_header_continues [OF a b c d] sample_read_tail c d
  show ?thesis by simp
qed

subsection \<open>Reading exactly n bytes\<close>

lemma stream_bytes_simps:
  "stream_bytes [] = []"
  "stream_bytes ((bs, eo) # evs) = bs @ stream_bytes evs"
  "stream_bytes (xs @ ys) = stream_bytes xs @ stream_bytes ys"
  by (simp_all add: stream_bytes_def)

lemma set_rstream_simps [simp]:
  "rstream (conn (set_rstream s evs)) = evs"
  "set_rstream (set_rstream s evs) evs' = set_rstream s evs'"
  by (simp_all add: set_rstream_def)

lemma read0_loop_step:
  "read0_loop s buff idx =
     (case snd (fst (br_Read (rstream (conn s)) (length buff - idx))) of
        Some e \<Rightarrow> close_with e (set_rstream s (snd (br_Read (rstream (conn s)) (length buff - idx))))
      | None \<Rightarrow>
          (if idx + length (fst (fst (br_Read (rstream (conn s)) (length buff - idx)))) \<ge> length buff
           then (Ret (take idx buff @ fst (fst (br_Read (rstream (conn s)) (length buff - idx)))
                        @ drop (idx + length (fst (fst (br_Read (rstream (conn s)) (length buff - idx))))) buff, None),
                 set_rstream s (snd (br_Read (rstream (conn s)) (length buff - idx))))
           else read0_loop (set_rstream s (snd (br_Read (rstream (conn s)) (length buff - idx))))
                  (take idx buff @ fst (fst (br_Read (rstream (conn s)) (length buff - idx)))
                        @ drop (idx + length (fst (fst (br_Read (rstream (conn s)) (length buff - idx))))) buff)
                  (idx + length (fst (fst (br_Read (rstream (conn s)) (length buff - idx)))))))"
  unfolding close_with_def set_rstream_def
  by (rule read0_loop_unfold [OF refl refl])

lemma read0_loop_bytes:
  assumes "rstream (conn s) = pre @ post" and "\<forall>ev\<in>set pre. snd ev = None"
    and "idx < length buff" and "length buff - idx \<le> length (stream_bytes pre)"
  shows "\<exists>post'. read0_loop s buff idx =
           (Ret (take idx buff @ take (length buff - idx) (stream_bytes pre), None),
            set_rstream s post')
         \<and> stream_bytes post' = drop (length buff - idx) (stream_bytes (pre @ post))"
  using assms
proof (induction pre arbitrary: s buff idx)
  case Nil
  then show ?case by (simp add: stream_bytes_simps)
next
  case (Cons ev pre)
  obtain bs where ev: "ev = (bs, None)" using Cons.prems(2) by (cases ev) auto
  define k where "k = length buff - idx"
  define B where "B = stream_bytes pre"
  define R where "R = stream_bytes (pre @ post)"
  have k: "0 < k" "idx + k = length buff" using Cons.prems(3) by (simp_all add: k_def)
  have evs: "rstream (conn s) = (bs, None) # pre @ post" using Cons.prems(1) ev by simp
  have sb1: "stream_bytes (ev # pre) = bs @ B"
    by (simp add: ev B_def stream_bytes_simps)
  have sb2: "stream_bytes ((ev # pre) @ post) = bs @ R"
    by (simp add: ev R_def stream_bytes_simps)
  have enough: "k \<le> length bs + length B"
    using Cons.prems(4) sb1 by (simp add: k_def)
  show ?case
    unfolding k_def [symmetric] sb1 sb2
  proof (cases "length bs \<le> k")
    case False
    then have rd: "br_Read (rstream (conn s)) (length buff - idx)
        = ((take k bs, None), (drop k bs, None) # pre @ post)"
      using evs by (simp add: k_def)
    have len: "idx + length (take k bs) \<ge> length buff" using False k by simp
    have "read0_loop s buff idx =
        (Ret (take idx buff @ take k bs @ drop (idx + length (take k bs)) buff, None),
         set_rstream s ((drop k bs, None) # pre @ post))"
      by (subst read0_loop_step) (simp only: rd fst_conv snd_conv option.case len if_True)
    moreover have "drop (idx + length (take k bs)) buff = []" using len by simp
    moreover have "take k (bs @ B) = take k bs" using False by simp
    moreover have "stream_bytes ((drop k bs, None) # pre @ post) = drop k (bs @ R)"
      using False by (simp add: stream_bytes_simps R_def)
    ultimately show "\<exists>post'. read0_loop s buff idx =
           (Ret (take idx buff @ take k (bs @ B), None), set_rstream s post')
         \<and> stream_bytes post' = drop k (bs @ R)"
      by (intro exI [of _ "(drop k bs, None) # pre @ post"]) simp
  next
    case True
    then have rd: "br_Read (rstream (conn s)) (length buff - idx) = ((bs, None), pre @ post)"
      using evs k(1) by (simp add: k_def)
    define buff' where "buff' = take idx buff @ bs @ drop (idx + length bs) buff"
    have lb: "length buff' = length buff" using True k by (simp add: buff'_def)
    have tk: "take (idx + length bs) buff' = take idx buff @ bs"
      using k by (simp add: buff'_def)
    show "\<exists>post'. read0_loop s buff idx =
           (Ret (take idx buff @ take k (bs @ B), None), set_rstream s post')
         \<and> stream_bytes post' = drop k (bs @ R)"
    proof (cases "idx + length bs \<ge> length buff")
      case fin: True
      then have eq: "length bs = k" using True k by simp
      have "read0_loop s buff idx = (Ret (buff', None), set_rstream s (pre @ post))"
        unfolding buff'_def
        by (subst read0_loop_step) (simp only: rd fst_conv snd_conv option.case fin if_True)
      moreover have "buff' = take idx buff @ take k (bs @ B)"
        using eq fin by (simp add: buff'_def)
      moreover have "stream_bytes (pre @ post) = drop k (bs @ R)"
        using eq by (simp add: R_def)
      ultimately show ?thesis by (intro exI [of _ "pre @ post"]) simp
    next
      case further: False
      have step: "read0_loop s buff idx = read0_loop (set_rstream s (pre @ post)) buff' (idx + length bs)"
        unfolding buff'_def
        by (subst read0_loop_step) (simp only: rd fst_conv snd_conv option.case further if_False)
      have p1: "rstream (conn (set_rstream s (pre @ post))) = pre @ post" by simp
      have p2: "\<forall>ev\<in>set pre. snd ev = None" using Cons.prems(2) by simp
      have p3: "idx + length bs < length buff'" using further lb by simp
      have k': "length buff' - (idx + length bs) = k - length bs" using lb by (simp add: k_def)
      have p4: "length buff' - (idx + length bs) \<le> length (stream_bytes pre)"
        using enough k' by (simp add: B_def)
      from Cons.IH [OF p1 p2 p3 p4] obtain post' where
        r: "read0_loop (set_rstream s (pre @ post)) buff' (idx + length bs) =
           (Ret (take (idx + length bs) buff' @ take (length buff' - (idx + length bs)) (stream_bytes pre), None),
            set_rstream (set_rstream s (pre @ post)) post')"
        and b: "stream_bytes post' = drop (length buff' - (idx + length bs)) (stream_bytes (pre @ post))"
        by blast
      have "take idx buff @ bs @ take (k - length bs) B = take idx buff @ take k (bs @ B)"
        using True by simp
      moreover have "drop (k - length bs) R = drop k (bs @ R)"
        using True by simp
      moreover have "stream_bytes post' = drop (k - length bs) R"
        using b k' by (simp add: R_def)
      moreover have "read0_loop s buff idx =
          (Ret ((take idx buff @ bs) @ take (k - length bs) B, None), set_rstream s post')"
        using step r tk k' by (simp add: B_def)
      ultimately show ?thesis
        by (intro exI [of _ post']) simp
    qed
  qed
qed


lemma read0_loop_error:
  assumes "rstream (conn s) = pre @ post" and "\<forall>ev\<in>set pre. snd ev = None"
    and "idx < length buff" and "length (stream_bytes pre) < length buff - idx"
    and "(post = [] \<and> e = EOF \<and> rest = []) \<or>
         (\<exists>bs. post = (bs, Some e) # rest \<and> length (stream_bytes pre) + length bs \<le> length buff - idx)"
  shows "read0_loop s buff idx = close_with e (set_rstream s rest)"
  using assms
proof (induction pre arbitrary: s buff idx)
  case Nil
  have k: "length buff - idx \<noteq> 0" using Nil.prems(3) by simp
  from Nil.prems(5) show ?case
  proof
    assume "post = [] \<and> e = EOF \<and> rest = []"
    then have rd: "br_Read (rstream (conn s)) (length buff - idx) = (([], Some EOF), [])"
        and e: "e = EOF" "rest = []"
      using Nil.prems(1) k by simp_all
    show ?thesis
      unfolding e by (subst read0_loop_step) (simp only: rd fst_conv snd_conv option.case)
  next
    assume "\<exists>bs. post = (bs, Some e) # rest
        \<and> length (stream_bytes []) + length bs \<le> length buff - idx"
    then obtain bs where "post = (bs, Some e) # rest" "length bs \<le> length buff - idx"
      by (auto simp: stream_bytes_simps)
    then have rd: "br_Read (rstream (conn s)) (length buff - idx) = ((bs, Some e), rest)"
      using Nil.prems(1) k by simp
    show ?thesis
      by (subst read0_loop_step) (simp only: rd fst_conv snd_conv option.case)
  qed
next
  case (Cons ev pre)
  obtain bs0 where ev: "ev = (bs0, None)" using Cons.prems(2) by (cases ev) auto
  define k where "k = length buff - idx"
  have sb: "stream_bytes (ev # pre) = bs0 @ stream_bytes pre"
    by (simp add: ev stream_bytes_simps)
  have short: "length bs0 + length (stream_bytes pre) < k"
    using Cons.prems(4) sb by (simp add: k_def)
  have rd: "br_Read (rstream (conn s)) (length buff - idx) = ((bs0, None), pre @ post)"
    using Cons.prems(1) ev short by (simp add: k_def)
  define buff' where "buff' = take idx buff @ bs0 @ drop (idx + length bs0) buff"
  have lb: "length buff' = length buff" using short by (simp add: buff'_def k_def)
  have further: "\<not> idx + length bs0 \<ge> length buff" using short by (simp add: k_def)
  have step: "read0_loop s buff idx = read0_loop (set_rstream s (pre @ post)) buff' (idx + length bs0)"
    unfolding buff'_def
    by (subst read0_loop_step) (simp only: rd fst_conv snd_conv option.case further if_False)
  have p1: "rstream (conn (set_rstream s (pre @ post))) = pre @ post" by simp
  have p2: "\<forall>ev\<in>set pre. snd ev = None" using Cons.prems(2) by simp
  have p3: "idx + length bs0 < length buff'" using further lb by simp
  have p4: "length (stream_bytes pre) < length buff' - (idx + length bs0)"
    using short lb by (simp add: k_def)
  have p5: "(post = [] \<and> e = EOF \<and> rest = []) \<or>
         (\<exists>bs. post = (bs, Some e) # rest
            \<and> length (stream_bytes pre) + length bs \<le> length buff' - (idx + length bs0))"
    using Cons.prems(5) sb lb by auto
  show ?case
    unfolding step using Cons.IH [OF p1 p2 p3 p4 p5] by simp
qed

lemma close_with_ok:
  "wf_session s \<Longrightarrow> FlowStat (rc s) \<noteq> None \<Longrightarrow> close_with e s = (Ret ([], Some e), snd (Close s))"
  using Close_no_panic [of s] by (cases "Close s") (simp add: close_with_def)

text \<open>
  Claim C6. Whatever \<^verbatim>\<open>read0\<close> returns is a buffer of exactly the requested length with
  no error, the session changed in its input position only, or the nil buffer with an
  error and a closed session: never a partly filled buffer. For a non-negative count, on
  a session whose channels are open while it is open and that has a flow-statistics sink,
  it does return. If at least \<open>n > 0\<close> bytes arrive before any error, in whatever
  pieces, it returns exactly the first \<open>n\<close> bytes of the input and leaves the rest
  unread. If an error (or the end of the input) comes while fewer than \<open>n\<close> bytes have
  arrived, \<^verbatim>\<open>read0\<close> calls \<^verbatim>\<open>Close\<close> and returns that error.
\<close>
theorem read0_exact_or_error:
  "(read0 s m = (Ret (buf, eo), s') \<longrightarrow>
      (eo = None \<and> int (length buf) = m \<and> s' = set_rstream s (rstream (conn s')))
      \<or> (eo \<noteq> None \<and> buf = [] \<and> isClose s'))
   \<and> (0 \<le> m \<and> wf_session s \<and> FlowStat (rc s) \<noteq> None \<longrightarrow>
        (\<exists>buf eo s'. read0 s m = (Ret (buf, eo), s')))
   \<and> (0 < n \<and> rstream (conn s) = pre @ post \<and> (\<forall>ev\<in>set pre. snd ev = None)
        \<and> n \<le> length (stream_bytes pre) \<longrightarrow>
        (\<exists>post'. read0 s (int n) = (Ret (take n (stream_bytes pre), None), set_rstream s post')
           \<and> stream_bytes post' = drop n (stream_bytes (pre @ post))))
   \<and> (0 < n \<and> wf_session s \<and> FlowStat (rc s) \<noteq> None
        \<and> (\<forall>ev\<in>set pre. snd ev = None) \<and> length (stream_bytes pre) < n
        \<and> ((rstream (conn s) = pre \<and> e = EOF \<and> rest = [])
            \<or> (rstream (conn s) = pre @ (bs, Some e) # rest
                 \<and> length (stream_bytes pre) + length bs \<le> n)) \<longrightarrow>
        read0 s (int n) = (Ret ([], Some e), snd (Close (set_rstream s rest)))
        \<and> isClose (snd (read0 s (int n))))"
proof (intro conjI impI)
  assume r: "read0 s m = (Ret (buf, eo), s')"
  have m: "0 \<le> m"
    using r read0_negative [of m s] by (cases "m < 0") auto
  show "(eo = None \<and> int (length buf) = m \<and> s' = set_rstream s (rstream (conn s')))
      \<or> (eo \<noteq> None \<and> buf = [] \<and> isClose s')"
    using read0_ok [OF m, of s] r m
    by (cases eo) (auto simp: read_ok_def set_rstream_def)
next
  assume a: "0 \<le> m \<and> wf_session s \<and> FlowStat (rc s) \<noteq> None"
  then show "\<exists>buf eo s'. read0 s m = (Ret (buf, eo), s')"
    using read0_ok [of m s]
    by (cases "read0 s m") (auto simp: read_ok_def split: outcome.splits)
next
  assume a: "0 < n \<and> rstream (conn s) = pre @ post \<and> (\<forall>ev\<in>set pre. snd ev = None)
        \<and> n \<le> length (stream_bytes pre)"
  have "\<exists>post'. read0_loop s (replicate n 0) 0 =
           (Ret (take 0 (replicate n 0) @ take (length (replicate n (0::byte)) - 0) (stream_bytes pre), None),
            set_rstream s post')
         \<and> stream_bytes post' = drop (length (replicate n (0::byte)) - 0) (stream_bytes (pre @ post))"
    using a by (intro read0_loop_bytes) simp_all
  then show "\<exists>post'. read0 s (int n) = (Ret (take n (stream_bytes pre), None), set_rstream s post')
           \<and> stream_bytes post' = drop n (stream_bytes (pre @ post))"
    by (simp add: read0_def)
next
  assume a: "0 < n \<and> wf_session s \<and> FlowStat (rc s) \<noteq> None
        \<and> (\<forall>ev\<in>set pre. snd ev = None) \<and> length (stream_bytes pre) < n
        \<and> ((rstream (conn s) = pre \<and> e = EOF \<and> rest = [])
            \<or> (rstream (conn s) = pre @ (bs, Some e) # rest
                 \<and> length (stream_bytes pre) + length bs \<le> n))"
  define post where "post = (if rstream (conn s) = pre \<and> e = EOF \<and> rest = [] then []
                             else (bs, Some e) # rest)"
  have p1: "rstream (conn s) = pre @ post" using a by (auto simp: post_def)
  have p5: "(post = [] \<and> e = EOF \<and> rest = []) \<or>
         (\<exists>bs. post = (bs, Some e) # rest
            \<and> length (stream_bytes pre) + length bs \<le> length (replicate n (0::byte)) - 0)"
    using a by (auto simp: post_def)
  have "read0_loop s (replicate n 0) 0 = close_with e (set_rstream s rest)"
    using a by (intro read0_loop_error [OF p1 _ _ _ p5]) simp_all
  moreover have "wf_session (set_rstream s rest)" "FlowStat (rc (set_rstream s rest)) \<noteq> None"
    using a by (simp_all add: set_rstream_def wf_session_def)
  ultimately have "read0 s (int n) = (Ret ([], Some e), snd (Close (set_rstream s rest)))"
    by (simp add: read0_def close_with_ok)
  then show "read0 s (int n) = (Ret ([], Some e), snd (Close (set_rstream s rest)))"
    and "isClose (snd (read0 s (int n)))"
    by (simp_all add: Close_isClose)
qed


theorem read0_exact_or_error_witness:
  "fst (read0 (sample_session [([1], None), ([2, 3, 4], None), ([5], None)] []) 3)
     = Ret ([1, 2, 3], None)
   \<and> read0 (sample_session [([1], None), ([], Some (ErrNew ''connection reset''))] []) 3
     = (Ret ([], Some (ErrNew ''connection reset'')), snd (Close (sample_session [] [])))
   \<and> isClose (snd (read0 (sample_session [([1], None), ([], Some (ErrNew ''connection reset''))] []) 3))
   \<and> read0 (sample_session [([1], None), ([2], None)] []) 3
     = (Ret ([], Some EOF), snd (Close (sample_session [] [])))"
proof -
  let ?S = "sample_session [([1], None), ([2, 3, 4], None), ([5], None)] []"
  let ?E = "sample_session [([1], None), ([], Some (ErrNew ''connection reset''))] []"
  let ?F = "sample_session [([1], None), ([2], None)] []"
  have a: "0 < (3::nat) \<and> rstream (conn ?S) = [([1], None), ([2, 3, 4], None)] @ [([5], None)]
      \<and> (\<forall>ev\<in>set [([1::byte], None::error option), ([2, 3, 4], None)]. snd ev = None)
      \<and> 3 \<le> length (stream_bytes [([1::byte], None::error option), ([2, 3, 4], None)])"
    by (simp add: sample_session_def sample_conn_def stream_bytes_def)
  have b: "0 < (3::nat) \<and> wf_session ?E \<and> FlowStat (rc ?E) \<noteq> None
      \<and> (\<forall>ev\<in>set [([1::byte], None::error option)]. snd ev = None)
      \<and> length (stream_bytes [([1::byte], None::error option)]) < 3
      \<and> ((rstream (conn ?E) = [([1], None)] \<and> ErrNew ''connection reset'' = EOF \<and> [] = [])
          \<or> (rstream (conn ?E) = [([1], None)] @ ([], Some (ErrNew ''connection reset'')) # []
               \<and> length (stream_bytes [([1::byte], None::error option)]) + length ([]::byte list) \<le> 3))"
    by (simp add: sample_session_def sample_conn_def stream_bytes_def wf_session_def)
  have c: "0 < (3::nat) \<and> wf_session ?F \<and> FlowStat (rc ?F) \<noteq> None
      \<and> (\<forall>ev\<in>set [([1::byte], None::error option), ([2], None)]. snd ev = None)
      \<and> length (stream_bytes [([1::byte], None::error option), ([2], None)]) < 3
      \<and> ((rstream (conn ?F) = [([1], None), ([2], None)] \<and> EOF = EOF \<and> ([]::(byte list \<times> error option) list) = [])
          \<or> (rstream (conn ?F) = [([1], None), ([2], None)] @ ([], Some EOF) # []
               \<and> length (stream_bytes [([1::byte], None::error option), ([2], None)]) + length ([]::byte list) \<le> 3))"
    by (simp add: sample_session_def sample_conn_def stream_bytes_def wf_session_def)
  have r: "set_rstream ?E [] = sample_session [] []" "set_rstream ?F [] = sample_session [] []"
    by (simp_all add: set_rstream_def sample_session_def sample_conn_def)
  have 1: "\<exists>post'. read0 ?S (int 3) =
      (Ret (take 3 (stream_bytes [([1], None), ([2, 3, 4], None)]), None), set_rstream ?S post')
      \<and> stream_bytes post' = drop 3 (stream_bytes ([([1], None), ([2, 3, 4], None)] @ [([5], None)]))"
    using read0_exact_or_error [where s = ?S and n = 3 and pre = "[([1], None), ([2, 3, 4], None)]"
        and post = "[([5], None)]"] a by blast
  have 2: "read0 ?E (int 3) = (Ret ([], Some (ErrNew ''connection reset'')), snd (Close (set_rstream ?E [])))
      \<and> isClose (snd (read0 ?E (int 3)))"
    using read0_exact_or_error [where s = ?E and n = 3 and pre = "[([1], None)]"
        and e = "ErrNew ''connection reset''" and rest = "[]" and bs = "[]"] b by blast
  have 3: "read0 ?F (int 3) = (Ret ([], Some EOF), snd (Close (set_rstream ?F [])))
      \<and> isClose (snd (read0 ?F (int 3)))"
    using read0_exact_or_error [where s = ?F and n = 3 and pre = "[([1], None), ([2], None)]"
        and e = EOF and rest = "[]" and bs = "[]"] c by blast
  have t: "take 3 (stream_bytes [([1::byte], None::error option), ([2, 3, 4], None)]) = [1, 2, 3]"
    by (simp add: stream_bytes_def)
  from 1 2 3 show ?thesis
    unfolding r t by auto
qed

subsection \<open>Write errors that the robust write does not see\<close>

text \<open>
  Claim C5, on the code. A batch of three bytes fits the write buffer, so \<^verbatim>\<open>bw.Write\<close>
  only buffers it and the loop of lines 184-206 ends at once; the bytes go out in
  \<^verbatim>\<open>bw.Flush()\<close> (line 208), whose error is dropped. When the connection takes one byte and
  fails, \<^verbatim>\<open>write0\<close> returns with one byte of the packet on the wire, two in the buffer and
  the session still open. When the connection takes one byte without an error, the next
  batch finds the sticky \<^verbatim>\<open>io.ErrShortWrite\<close>, \<^verbatim>\<open>Reset\<close> throws the two unsent bytes away and
  the next packet follows the first byte of the previous one on the wire.
\<close>
theorem write0_leaves_partial_packet:
  "fst (write0 flush_fail_session [sample_packet [1, 2, 3]]) = Ret ()
   \<and> \<not> isClose (snd (write0 flush_fail_session [sample_packet [1, 2, 3]]))
   \<and> wire (conn (snd (write0 flush_fail_session [sample_packet [1, 2, 3]]))) = [1]
   \<and> bw_buf (bw (snd (write0 flush_fail_session [sample_packet [1, 2, 3]]))) = [2, 3]
   \<and> bw_err (bw (snd (write0 flush_fail_session [sample_packet [1, 2, 3]])))
       = Some (ErrNew ''broken pipe'')
   \<and> fst (write0 (snd (write0 short_write_session [sample_packet [1, 2, 3]]))
             [sample_packet [4, 5]]) = Ret ()
   \<and> \<not> isClose (snd (write0 (snd (write0 short_write_session [sample_packet [1, 2, 3]]))
             [sample_packet [4, 5]]))
   \<and> wire (conn (snd (write0 (snd (write0 short_write_session [sample_packet [1, 2, 3]]))
             [sample_packet [4, 5]]))) = [1, 4, 5]"
  by (simp add: flush_fail_session_def short_write_session_def eval_defs
      write0_loop.simps bw_Write_loop.simps)

section \<open>Open sessions have open channels\<close>

text \<open>
  \<open>wf_session\<close> holds of every session \<^verbatim>\<open>NewSession\<close> returns and is kept by \<^verbatim>\<open>Close\<close>,
  \<^verbatim>\<open>Write\<close>, \<^verbatim>\<open>read0\<close>, a round of the read loop, \<^verbatim>\<open>write0\<close> and a round of the write loop,
  whatever their outcome: \<^verbatim>\<open>Close\<close> sets \<^verbatim>\<open>isClose\<close> before it closes a channel, and
  nothing else closes one.
\<close>

lemma NewSession_wf: "NewSession cn cfg fc = Ret s \<Longrightarrow> wf_session s"
  by (auto simp: NewSession_def make_chan_def wf_session_def split: if_splits option.splits)

lemma Close_wf: "wf_session (snd (Close s))"
  using Close_isClose [of s] by (simp add: wf_session_def)

lemma Write_wf: "wf_session s \<Longrightarrow> wf_session (snd (Write s p))"
  by (auto simp: Write_def wf_session_def)

lemma read0_wf: "wf_session s \<Longrightarrow> wf_session (snd (read0 s n))"
proof (cases "n < 0")
  case True
  then show "wf_session s \<Longrightarrow> ?thesis" by (simp add: read0_negative)
next
  case False
  assume wf: "wf_session s"
  obtain res s' where r: "read0 s n = (res, s')" by (cases "read0 s n")
  have ok: "read_ok s (nat n) (res, s')" using read0_ok [of n s] False r by simp
  have "wf_session s'"
  proof (cases res)
    case (Ret x)
    obtain buf eo where x: "x = (buf, eo)" by (cases x)
    show ?thesis
    proof (cases eo)
      case None
      then have "s' = s\<lparr>conn := (conn s)\<lparr>rstream := rstream (conn s')\<rparr>\<rparr>"
        using ok Ret x by (simp add: read_ok_def)
      then have "wf_session s' = wf_session s"
        by (metis (no_types, lifting) session.select_convs(4,5,6) session.surjective
            session.update_convs(1) wf_session_def)
      then show ?thesis using wf by simp
    next
      case (Some e)
      then show ?thesis using ok Ret x by (simp add: read_ok_def wf_session_def)
    qed
  next
    case (Panic q)
    then show ?thesis using ok by (simp add: read_ok_def wf_session_def)
  next
    case Blocked
    then show ?thesis using ok by (simp add: read_ok_def)
  qed
  then show ?thesis using r by simp
qed

lemma ReadPacket_body_wf:
  assumes "wf_session s"
  shows "wf_session (snd (ReadPacket_body pk s))"
proof -
  obtain o1 s1 where r1: "read0 s (PACKET_HEAD_LEN pk) = (o1, s1)"
    by (cases "read0 s (PACKET_HEAD_LEN pk)")
  have w1: "wf_session s1" using read0_wf [OF assms, of "PACKET_HEAD_LEN pk"] r1 by simp
  show ?thesis
  proof (cases o1)
    case (Panic q)
    then show ?thesis using w1 by (simp add: ReadPacket_body_def r1)
  next
    case Blocked
    then show ?thesis using w1 by (simp add: ReadPacket_body_def r1)
  next
    case (Ret x)
    obtain buff eo where x: "x = (buff, eo)" by (cases x)
    show ?thesis
    proof (cases eo)
      case (Some e)
      then show ?thesis using w1 by (simp add: ReadPacket_body_def r1 Ret x)
    next
      case None
      note r1' = r1 [unfolded Ret x None]
      obtain head herr where h: "UnmarshalHeader pk buff = (head, herr)"
        by (cases "UnmarshalHeader pk buff")
      show ?thesis
      proof (cases herr)
        case (Some e)
        obtain oc sc where c: "Close s1 = (oc, sc)" by (cases "Close s1")
        have "wf_session sc" using Close_wf [of s1] c by simp
        then show ?thesis
          by (cases oc) (simp_all add: ReadPacket_body_def r1' h Some c)
      next
        case hn: None
        show ?thesis
        proof (cases "sint (BodyLen head) > MAX_PACKET_BYTES pk")
          case True
          then show ?thesis using w1 by (simp add: ReadPacket_body_def r1' h hn)
        next
          case False
          obtain o2 s2 where r2: "read0 s1 (sint (BodyLen head)) = (o2, s2)"
            by (cases "read0 s1 (sint (BodyLen head))")
          have w2: "wf_session s2" using read0_wf [OF w1, of "sint (BodyLen head)"] r2 by simp
          show ?thesis
          proof (cases o2)
            case (Panic q)
            then show ?thesis using w2 False by (simp add: ReadPacket_body_def r1' h hn r2)
          next
            case Blocked
            then show ?thesis using w2 False by (simp add: ReadPacket_body_def r1' h hn r2)
          next
            case (Ret y)
            obtain body eo2 where y: "y = (body, eo2)" by (cases y)
            show ?thesis
            proof (cases eo2)
              case (Some e)
              then show ?thesis using w2 False by (simp add: ReadPacket_body_def r1' h hn r2 Ret y)
            next
              case bn: None
              note r2' = r2 [unfolded Ret y bn]
              obtain pw derr where d: "UnmarshalPacket (frameCodec s2) \<lparr>Header = head, Data = body\<rparr> = (pw, derr)"
                by (cases "UnmarshalPacket (frameCodec s2) \<lparr>Header = head, Data = body\<rparr>")
              show ?thesis
              proof (cases derr)
                case (Some e)
                then show ?thesis using w2 False by (simp add: ReadPacket_body_def r1' h hn r2' d)
              next
                case dn: None
                obtain o3 ch where sd: "chan_send (ReadChannel s2) pw = (o3, ch)"
                  by (cases "chan_send (ReadChannel s2) pw")
                show ?thesis
                proof (cases o3)
                  case (Panic q)
                  then show ?thesis using w2 False
                    by (simp add: ReadPacket_body_def r1' h hn r2' d dn sd)
                next
                  case Blocked
                  then show ?thesis using w2 False
                    by (simp add: ReadPacket_body_def r1' h hn r2' d dn sd)
                next
                  case (Ret u)
                  have open': "\<not> ch_closed ch"
                    using sd Ret by (auto simp: chan_send_def split: if_splits)
                  have "wf_session (s2\<lparr>ReadChannel := ch\<rparr>)"
                    using w2 open' by (auto simp: wf_session_def)
                  moreover have "\<And>x. wf_session (s2\<lparr>ReadChannel := ch, rc := x\<rparr>)"
                    using w2 open' by (auto simp: wf_session_def)
                  ultimately show ?thesis using False Ret
                    by (cases "FlowStat (rc s2)")
                      (simp_all add: ReadPacket_body_def r1' h hn r2' d dn sd)
                qed
              qed
            qed
          qed
        qed
      qed
    qed
  qed
qed

lemma ReadPacket_iter_wf: "wf_session s \<Longrightarrow> wf_session (snd (ReadPacket_iter pk s))"
  using ReadPacket_body_wf [of s pk]
  by (cases "ReadPacket_body pk s") (auto simp: ReadPacket_iter_def split: outcome.splits)


lemma write0_loop_preserves:
  assumes upd: "\<And>t b c. P t \<Longrightarrow> P (t\<lparr>bw := b, conn := c\<rparr>)"
    and rs: "\<And>t b. P t \<Longrightarrow> P (t\<lparr>bw := b\<rparr>)"
    and cl: "\<And>t. P t \<Longrightarrow> P (snd (Close t))"
  shows "P s \<Longrightarrow> P (snd (write0_loop s batch l))"
proof (induction s batch l rule: write0_loop.induct)
  case (1 s batch l)
  define r where "r = bw_Write (bw s, conn s) (drop l batch)"
  define s1 where "s1 = s\<lparr>bw := fst (snd r), conn := snd (snd r)\<rparr>"
  define s2 where "s2 = (if snd (fst r) = Some ErrShortWrite then s1\<lparr>bw := bw_Reset (bw s1)\<rparr> else s1)"
  note unfold = write0_loop_unfold [OF r_def s1_def s2_def]
  have p1: "P s1" unfolding s1_def using "1.prems" by (rule upd)
  have p2: "P s2" unfolding s2_def using p1 rs by simp
  consider (close) "snd (fst r) \<noteq> None \<and> snd (fst r) \<noteq> Some ErrShortWrite"
    | (finished) "\<not> (snd (fst r) \<noteq> None \<and> snd (fst r) \<noteq> Some ErrShortWrite)"
        "l + fst (fst r) = length batch"
    | (bounds) "\<not> (snd (fst r) \<noteq> None \<and> snd (fst r) \<noteq> Some ErrShortWrite)"
        "l + fst (fst r) \<noteq> length batch" "l + fst (fst r) > length batch"
    | (again) "\<not> (snd (fst r) \<noteq> None \<and> snd (fst r) \<noteq> Some ErrShortWrite)"
        "l + fst (fst r) \<noteq> length batch" "\<not> l + fst (fst r) > length batch"
    by blast
  then show ?case
  proof cases
    case close
    then have "snd (write0_loop s batch l) = snd (Close s1)"
      unfolding unfold by (auto split: prod.splits outcome.splits)
    then show ?thesis using cl [OF p1] by simp
  next
    case finished
    then have "write0_loop s batch l = (Ret True, s2)"
      unfolding unfold by auto
    then show ?thesis using p2 by simp
  next
    case bounds
    then have "write0_loop s batch l = (Panic SliceBoundsOutOfRange, s2)"
      unfolding unfold by auto
    then show ?thesis using p2 by simp
  next
    case again
    then have eq: "write0_loop s batch l = write0_loop s2 batch (l + fst (fst r))"
      unfolding unfold by auto
    have "P (snd (write0_loop s2 batch (l + fst (fst r))))"
      using again p2 by (intro "1.IH" [OF r_def refl refl s1_def _ s2_def]) auto
    then show ?thesis using eq by simp
  qed
qed

lemma write0_preserves:
  assumes upd: "\<And>t b c. P t \<Longrightarrow> P (t\<lparr>bw := b, conn := c\<rparr>)"
    and rs: "\<And>t b. P t \<Longrightarrow> P (t\<lparr>bw := b\<rparr>)"
    and cl: "\<And>t. P t \<Longrightarrow> P (snd (Close t))"
    and ru: "\<And>t x. P t \<Longrightarrow> P (t\<lparr>rc := x\<rparr>)"
    and p: "P s"
  shows "P (snd (write0 s tlv))"
proof -
  define batch where "batch = write0_batch (frameCodec s) tlv"
  obtain o1 s1 where w: "write0_loop s batch 0 = (o1, s1)" by (cases "write0_loop s batch 0")
  have p1: "P s1"
    using write0_loop_preserves [of P s batch 0, OF upd rs cl p] w by simp
  have p2: "\<And>b c. P (s1\<lparr>bw := b, conn := c\<rparr>)" using p1 by (rule upd)
  have p3: "\<And>b c x. P (s1\<lparr>bw := b, conn := c, rc := x\<rparr>)" using p2 by (rule ru)
  show ?thesis
  proof (cases "length batch \<le> 0")
    case True
    then show ?thesis using p by (simp add: write0_def batch_def [symmetric])
  next
    case False
    show ?thesis
    proof (cases o1)
      case (Ret b)
      then show ?thesis
        using False p1 p2 p3 w
        by (cases b; cases "FlowStat (rc s1)")
          (simp_all add: write0_def batch_def [symmetric] Let_def)
    next
      case (Panic q)
      then show ?thesis using False p1 w by (simp add: write0_def batch_def [symmetric])
    next
      case Blocked
      then show ?thesis using False p1 w by (simp add: write0_def batch_def [symmetric])
    qed
  qed
qed

lemma write0_wf: "wf_session s \<Longrightarrow> wf_session (snd (write0 s tlv))"
  by (rule write0_preserves [of wf_session]) (simp_all add: wf_session_def Close_isClose)

lemma recv_batch_closed: "ch_closed (snd (recv_batch n ch acc)) = ch_closed ch"
proof (induction n arbitrary: ch acc)
  case 0
  show ?case by simp
next
  case (Suc n)
  show ?case
  proof (cases "ch_buf ch")
    case Nil
    then show ?thesis using Suc.IH [of ch acc] by (simp add: chan_recv_def)
  next
    case (Cons x xs)
    then show ?thesis
      using Suc.IH [of "ch\<lparr>ch_buf := xs\<rparr>"] by (simp add: chan_recv_def)
  qed
qed

lemma WritePacket_iter_wf:
  assumes "wf_session s"
  shows "wf_session (snd (WritePacket_iter now s))"
proof -
  obtain o1 ch where r: "chan_recv (WriteChannel s) = (o1, ch)"
    by (cases "chan_recv (WriteChannel s)")
  have c1: "ch_closed ch = ch_closed (WriteChannel s)"
    using r by (auto simp: chan_recv_def split: list.splits if_splits)
  show ?thesis
  proof (cases o1)
    case (Panic q)
    then show ?thesis using assms r by (simp add: WritePacket_iter_def)
  next
    case Blocked
    then show ?thesis using assms r by (simp add: WritePacket_iter_def)
  next
    case (Ret p)
    define acc where "acc = (case p of None \<Rightarrow> [] | Some q \<Rightarrow> [q])"
    obtain o2 ch' where b: "recv_batch (min (length (ch_buf ch)) 100) ch acc = (o2, ch')"
      by (cases "recv_batch (min (length (ch_buf ch)) 100) ch acc")
    have c2: "ch_closed ch' = ch_closed (WriteChannel s)"
      using recv_batch_closed [of "min (length (ch_buf ch)) 100" ch acc] b c1 by simp
    have w1: "wf_session (s\<lparr>WriteChannel := ch'\<rparr>)"
      using assms c2 by (auto simp: wf_session_def)
    have lt: "\<And>t. wf_session t \<Longrightarrow> wf_session (t\<lparr>lasttime := now\<rparr>)"
      by (simp add: wf_session_def)
    show ?thesis
    proof (cases o2)
      case (Panic q)
      then show ?thesis using w1 r Ret b by (simp add: WritePacket_iter_def acc_def)
    next
      case Blocked
      then show ?thesis using w1 r Ret b by (simp add: WritePacket_iter_def acc_def)
    next
      case inner: (Ret packets)
      obtain o3 s3 where w: "write0 (s\<lparr>WriteChannel := ch'\<rparr>) packets = (o3, s3)"
        by (cases "write0 (s\<lparr>WriteChannel := ch'\<rparr>) packets")
      have w3: "wf_session s3" using write0_wf [OF w1, of packets] w by simp
      show ?thesis
        using w1 w3 lt [OF w3] r Ret b inner w
        by (cases o3) (simp_all add: WritePacket_iter_def acc_def)
    qed
  qed
qed

section \<open>The timestamp of a new session\<close>

text \<open>
  \<^verbatim>\<open>lasttime\<close> is assigned at line 238 only: \<^verbatim>\<open>Write\<close>, \<^verbatim>\<open>Close\<close>, \<^verbatim>\<open>read0\<close>, a round of the
  read loop and a round of the write loop that receives no non-nil packet leave it as it
  is, whatever their outcome.
\<close>

lemma Write_lasttime: "lasttime (snd (Write s p)) = lasttime s"
  by (simp add: Write_def)

lemma read0_loop_lasttime: "lasttime (snd (read0_loop s buff idx)) = lasttime s"
proof (induction s buff idx rule: read0_loop.induct)
  case (1 s buff idx)
  define r where "r = br_Read (rstream (conn s)) (length buff - idx)"
  define s1 where "s1 = s\<lparr>conn := (conn s)\<lparr>rstream := snd r\<rparr>\<rparr>"
  define buff' where "buff' = take idx buff @ fst (fst r) @ drop (idx + length (fst (fst r))) buff"
  note unfold = read0_loop_unfold [OF r_def s1_def, folded buff'_def]
  have l1: "lasttime s1 = lasttime s" by (simp add: s1_def)
  show ?case
  proof (cases "snd (fst r)")
    case (Some e)
    then have "snd (read0_loop s buff idx) = snd (Close s1)"
      unfolding unfold by (cases "Close s1") (auto split: outcome.splits)
    then show ?thesis using Close_lasttime [of s1] l1 by simp
  next
    case None
    show ?thesis
    proof (cases "idx + length (fst (fst r)) \<ge> length buff")
      case True
      then show ?thesis using None l1 unfolding unfold by simp
    next
      case False
      have IH: "lasttime (snd (read0_loop s1 buff' (idx + length (fst (fst r))))) = lasttime s1"
        using "1.IH" [OF r_def refl s1_def None] False unfolding buff'_def by simp
      have eq: "read0_loop s buff idx = read0_loop s1 buff' (idx + length (fst (fst r)))"
        using None False unfolding unfold by simp
      show ?thesis using IH l1 eq by simp
    qed
  qed
qed

lemma read0_lasttime: "lasttime (snd (read0 s n)) = lasttime s"
  by (simp add: read0_def read0_loop_lasttime)

lemma ReadPacket_body_lasttime: "lasttime (snd (ReadPacket_body pk s)) = lasttime s"
proof -
  obtain o1 s1 where r1: "read0 s (PACKET_HEAD_LEN pk) = (o1, s1)"
    by (cases "read0 s (PACKET_HEAD_LEN pk)")
  have w1: "lasttime s1 = lasttime s"
    using read0_lasttime [of s "PACKET_HEAD_LEN pk"] r1 by simp
  show ?thesis
  proof (cases o1)
    case (Panic q)
    then show ?thesis using w1 by (simp add: ReadPacket_body_def r1)
  next
    case Blocked
    then show ?thesis using w1 by (simp add: ReadPacket_body_def r1)
  next
    case (Ret x)
    obtain buff eo where x: "x = (buff, eo)" by (cases x)
    show ?thesis
    proof (cases eo)
      case (Some e)
      then show ?thesis using w1 by (simp add: ReadPacket_body_def r1 Ret x)
    next
      case None
      note r1' = r1 [unfolded Ret x None]
      obtain head herr where h: "UnmarshalHeader pk buff = (head, herr)"
        by (cases "UnmarshalHeader pk buff")
      show ?thesis
      proof (cases herr)
        case (Some e)
        obtain oc sc where c: "Close s1 = (oc, sc)" by (cases "Close s1")
        have "lasttime sc = lasttime s" using Close_lasttime [of s1] c w1 by simp
        then show ?thesis
          by (cases oc) (simp_all add: ReadPacket_body_def r1' h Some c)
      next
        case hn: None
        show ?thesis
        proof (cases "sint (BodyLen head) > MAX_PACKET_BYTES pk")
          case True
          then show ?thesis using w1 by (simp add: ReadPacket_body_def r1' h hn)
        next
          case False
          obtain o2 s2 where r2: "read0 s1 (sint (BodyLen head)) = (o2, s2)"
            by (cases "read0 s1 (sint (BodyLen head))")
          have w2: "lasttime s2 = lasttime s"
            using read0_lasttime [of s1 "sint (BodyLen head)"] r2 w1 by simp
          show ?thesis
          proof (cases o2)
            case (Panic q)
            then show ?thesis using w2 False by (simp add: ReadPacket_body_def r1' h hn r2)
          next
            case Blocked
            then show ?thesis using w2 False by (simp add: ReadPacket_body_def r1' h hn r2)
          next
            case (Ret y)
            obtain body eo2 where y: "y = (body, eo2)" by (cases y)
            show ?thesis
            proof (cases eo2)
              case (Some e)
              then show ?thesis using w2 False by (simp add: ReadPacket_body_def r1' h hn r2 Ret y)
            next
              case bn: None
              note r2' = r2 [unfolded Ret y bn]
              obtain pw derr where d: "UnmarshalPacket (frameCodec s2) \<lparr>Header = head, Data = body\<rparr> = (pw, derr)"
                by (cases "UnmarshalPacket (frameCodec s2) \<lparr>Header = head, Data = body\<rparr>")
              show ?thesis
              proof (cases derr)
                case (Some e)
                then show ?thesis using w2 False by (simp add: ReadPacket_body_def r1' h hn r2' d)
              next
                case dn: None
                obtain o3 ch where sd: "chan_send (ReadChannel s2) pw = (o3, ch)"
                  by (cases "chan_send (ReadChannel s2) pw")
                show ?thesis
                proof (cases o3)
                  case (Panic q)
                  then show ?thesis using w2 False
                    by (simp add: ReadPacket_body_def r1' h hn r2' d dn sd)
                next
                  case Blocked
                  then show ?thesis using w2 False
                    by (simp add: ReadPacket_body_def r1' h hn r2' d dn sd)
                next
                  case (Ret u)
                  then show ?thesis using w2 False
                    by (cases "FlowStat (rc s2)")
                      (simp_all add: ReadPacket_body_def r1' h hn r2' d dn sd)
                qed
              qed
            qed
          qed
        qed
      qed
    qed
  qed
qed

lemma ReadPacket_iter_lasttime: "lasttime (snd (ReadPacket_iter pk s)) = lasttime s"
  using ReadPacket_body_lasttime [of pk s]
  by (cases "ReadPacket_body pk s") (auto simp: ReadPacket_iter_def split: outcome.splits)

lemma WritePacket_iter_no_packet:
  assumes "non_nil (take 101 (ch_buf (WriteChannel s))) = []"
  shows "lasttime (snd (WritePacket_iter now s)) = lasttime s"
proof (cases "ch_buf (WriteChannel s) = []")
  case True
  then have "WritePacket_iter now s = (Ret (), s) \<or> WritePacket_iter now s = (Blocked, s)"
    using WritePacket_iter_empty_closed [of s now] WritePacket_iter_empty_open [of s now]
    by blast
  then show ?thesis by auto
next
  case False
  then show ?thesis
    using WritePacket_iter_nonempty [OF False, of now] assms by simp
qed

lemma WritePacket_iter_packet:
  assumes "non_nil (take 101 (ch_buf (WriteChannel s))) \<noteq> []"
    and "WritePacket_iter now s = (Ret (), s')"
  shows "lasttime s' = now"
proof -
  have ne: "ch_buf (WriteChannel s) \<noteq> []" using assms(1) by auto
  let ?s1 = "s\<lparr>WriteChannel := (WriteChannel s)\<lparr>ch_buf := drop 101 (ch_buf (WriteChannel s))\<rparr>\<rparr>"
  let ?ps = "non_nil (take 101 (ch_buf (WriteChannel s)))"
  obtain o2 s2 where w: "write0 ?s1 ?ps = (o2, s2)" by (cases "write0 ?s1 ?ps")
  have "WritePacket_iter now s =
      (case o2 of Ret x \<Rightarrow> (Ret (), s2\<lparr>lasttime := now\<rparr>) | Panic q \<Rightarrow> (Panic q, s2)
        | Blocked \<Rightarrow> (Blocked, s2))"
    using WritePacket_iter_nonempty [OF ne, of now] assms(1) w by simp
  then have "s' = s2\<lparr>lasttime := now\<rparr>"
    using assms(2) by (cases o2) auto
  then show ?thesis by simp
qed

lemma call_lasttime: "\<not> takes_packet c s \<Longrightarrow> lasttime (call c s) = lasttime s"
  by (cases c)
    (simp_all add: Write_lasttime Close_lasttime ReadPacket_iter_lasttime WritePacket_iter_no_packet)

lemma calls_lasttime: "no_packet_taken cs s \<Longrightarrow> lasttime (calls cs s) = lasttime s"
  by (induction cs arbitrary: s) (simp_all add: call_lasttime)

lemma zero_time_Idle: "lasttime s = 0 \<Longrightarrow> unix_epoch \<le> t \<Longrightarrow> Idle t s"
proof -
  assume l: "lasttime s = 0" and t: "unix_epoch \<le> t"
  have "sint (IdleTime (rc s)) < 2 ^ (LENGTH(64) - 1)"
    by (rule sint_lt)
  then have "sint (IdleTime (rc s)) < unix_epoch"
    by (simp add: unix_epoch_def)
  then show ?thesis
    using l t by (simp add: Idle_def)
qed

text \<open>
  Claim C10 as stated fails in its second half: a new session does not stay idle until
  its first successful write. On the session \<^verbatim>\<open>NewSession\<close> returns, \<^verbatim>\<open>Write\<close> queues a packet
  that the codec cannot encode. The round of the write loop at 5 ns after the start of
  1970 receives it, \<^verbatim>\<open>write0\<close> finds nothing to write and returns at line 179 (no byte is
  on the wire or in the buffer, the session stays open), and line 238 sets \<^verbatim>\<open>lasttime\<close>.
  One nanosecond later the session, idle before the round, is not idle, although no write
  has completed.
\<close>
theorem Idle_without_write_counterexample:
  "NewSession (sample_conn [] []) sample_rc sample_codec = Ret (sample_session [] [])
   \<and> unencodable_session = snd (Write (sample_session [] []) (Some (sample_packet [0])))
   \<and> fst (WritePacket_iter (unix_epoch + 5) unencodable_session) = Ret ()
   \<and> wire (conn (snd (WritePacket_iter (unix_epoch + 5) unencodable_session))) = []
   \<and> bw_buf (bw (snd (WritePacket_iter (unix_epoch + 5) unencodable_session))) = []
   \<and> \<not> isClose (snd (WritePacket_iter (unix_epoch + 5) unencodable_session))
   \<and> lasttime (snd (WritePacket_iter (unix_epoch + 5) unencodable_session)) = unix_epoch + 5
   \<and> Idle (unix_epoch + 6) unencodable_session
   \<and> \<not> Idle (unix_epoch + 6) (snd (WritePacket_iter (unix_epoch + 5) unencodable_session))"
proof -
  have "NewSession (sample_conn [] []) sample_rc sample_codec = Ret (sample_session [] [])"
    by (rule sample_NewSession)
  moreover have "unencodable_session = snd (Write (sample_session [] []) (Some (sample_packet [0])))"
    by (simp add: unencodable_session_def)
  moreover have "WritePacket_iter (unix_epoch + 5) unencodable_session
      = (Ret (), (sample_session [] [])\<lparr>lasttime := unix_epoch + 5\<rparr>)"
    by (simp add: unencodable_session_def eval_defs)
  moreover have "Idle (unix_epoch + 6) unencodable_session"
    by (simp add: unencodable_session_def Write_def sample_session_def sample_rc_def Idle_def
        unix_epoch_def)
  moreover have "\<not> Idle (unix_epoch + 6) ((sample_session [] [])\<lparr>lasttime := unix_epoch + 5\<rparr>)"
    by (simp add: sample_session_def sample_rc_def Idle_def)
  moreover have "wire (conn ((sample_session [] [])\<lparr>lasttime := unix_epoch + 5\<rparr>)) = []
      \<and> bw_buf (bw ((sample_session [] [])\<lparr>lasttime := unix_epoch + 5\<rparr>)) = []
      \<and> \<not> isClose ((sample_session [] [])\<lparr>lasttime := unix_epoch + 5\<rparr>)"
    by (simp add: sample_session_def sample_conn_def)
  ultimately show ?thesis
    by simp
qed

text \<open>
  Claim C10, amended. A session as \<^verbatim>\<open>NewSession\<close> returns it has the zero time as
  \<^verbatim>\<open>lasttime\<close>, and \<^verbatim>\<open>Idle\<close> is true on it at every clock reading from 1970 on (an
  \<^verbatim>\<open>IdleTime\<close> is less than \<open>2^63\<close> nanoseconds, about 292 years). Both stay so through
  any calls of \<^verbatim>\<open>Write\<close> and \<^verbatim>\<open>Close\<close> and rounds of the two loops, as long as no round of
  the write loop receives a non-nil packet. The first round that receives one and returns
  sets \<^verbatim>\<open>lasttime\<close> to its clock reading, whether \<^verbatim>\<open>write0\<close> wrote the batch or not; from
  then on \<^verbatim>\<open>Idle\<close> compares with that reading.
\<close>
theorem NewSession_Idle:
  assumes "NewSession cn cfg fc = Ret s" and "unix_epoch \<le> t" and "no_packet_taken cs s"
  shows "lasttime s = 0 \<and> Idle t s
       \<and> lasttime (calls cs s) = 0 \<and> Idle t (calls cs s)
       \<and> (non_nil (take 101 (ch_buf (WriteChannel (calls cs s)))) \<noteq> []
            \<and> WritePacket_iter now (calls cs s) = (Ret (), s') \<longrightarrow>
          lasttime s' = now \<and> Idle t s' = (t > now + sint (IdleTime (rc s'))))"
proof -
  have l: "lasttime s = 0"
    using assms(1)
    by (auto simp: NewSession_def make_chan_def split: if_splits option.splits)
  then have l': "lasttime (calls cs s) = 0"
    using calls_lasttime [OF assms(3)] by simp
  show ?thesis
    using l l' zero_time_Idle [OF l assms(2)] zero_time_Idle [OF l' assms(2)]
      WritePacket_iter_packet [of "calls cs s" now s']
    by (auto simp: Idle_def)
qed

lemma quiet_calls_eval:
  "no_packet_taken quiet_calls (sample_session [] [])"
  "calls quiet_calls (sample_session [] []) =
     (sample_session [] [])\<lparr>WriteChannel :=
        \<lparr>ch_buf = [Some (sample_packet [1, 2])], ch_cap = 2, ch_closed = False\<rparr>\<rparr>"
  "WritePacket_iter (unix_epoch + 5) (calls quiet_calls (sample_session [] [])) =
     (Ret (),
      (sample_session [] [])
        \<lparr>conn := (sample_conn [] [])\<lparr>wire := [1, 2]\<rparr>,
         lasttime := unix_epoch + 5,
         rc := sample_rc\<lparr>FlowStat := Some \<lparr>Connections = 1, ReadFlow = 0, ReadBytesFlow = 0,
                        WriteFlow = 1, WriteBytesFlow = 2\<rparr>\<rparr>\<rparr>)"
  by (simp_all add: quiet_calls_def eval_defs write0_loop.simps bw_Write_loop.simps)

theorem NewSession_Idle_witness:
  "NewSession (sample_conn [] []) sample_rc sample_codec = Ret (sample_session [] [])
   \<and> unix_epoch \<le> unix_epoch + 15
   \<and> no_packet_taken quiet_calls (sample_session [] [])
   \<and> lasttime (sample_session [] []) = 0
   \<and> Idle (unix_epoch + 15) (sample_session [] [])
   \<and> lasttime (calls quiet_calls (sample_session [] [])) = 0
   \<and> Idle (unix_epoch + 15) (calls quiet_calls (sample_session [] []))
   \<and> non_nil (take 101 (ch_buf (WriteChannel (calls quiet_calls (sample_session [] []))))) \<noteq> []
   \<and> fst (WritePacket_iter (unix_epoch + 5) (calls quiet_calls (sample_session [] []))) = Ret ()
   \<and> lasttime (snd (WritePacket_iter (unix_epoch + 5) (calls quiet_calls (sample_session [] []))))
       = unix_epoch + 5
   \<and> \<not> Idle (unix_epoch + 15)
         (snd (WritePacket_iter (unix_epoch + 5) (calls quiet_calls (sample_session [] []))))
   \<and> Idle (unix_epoch + 16)
         (snd (WritePacket_iter (unix_epoch + 5) (calls quiet_calls (sample_session [] []))))"
proof -
  let ?s = "calls quiet_calls (sample_session [] [])"
  let ?s' = "snd (WritePacket_iter (unix_epoch + 5) ?s)"
  have a: "NewSession (sample_conn [] []) sample_rc sample_codec = Ret (sample_session [] [])"
    by (rule sample_NewSession)
  have b: "unix_epoch \<le> unix_epoch + 15" "unix_epoch \<le> unix_epoch + 16" by simp_all
  have c: "no_packet_taken quiet_calls (sample_session [] [])" by (rule quiet_calls_eval(1))
  have d: "non_nil (take 101 (ch_buf (WriteChannel ?s))) \<noteq> []"
    by (simp add: quiet_calls_eval(2))
  have e: "WritePacket_iter (unix_epoch + 5) ?s = (Ret (), ?s')"
    by (simp add: quiet_calls_eval(3))
  have f: "sint (IdleTime (rc ?s')) = 10"
    by (simp add: quiet_calls_eval(3) sample_rc_def)
  note t15 = NewSession_Idle [OF a b(1) c, where now = "unix_epoch + 5" and s' = ?s']
  note t16 = NewSession_Idle [OF a b(2) c, where now = "unix_epoch + 5" and s' = ?s']
  have g: "lasttime ?s' = unix_epoch + 5"
      "Idle (unix_epoch + 15) ?s' = (unix_epoch + 15 > unix_epoch + 5 + sint (IdleTime (rc ?s')))"
    using t15 d e by blast+
  have h: "Idle (unix_epoch + 16) ?s' = (unix_epoch + 16 > unix_epoch + 5 + sint (IdleTime (rc ?s')))"
    using t16 d e by blast
  have i: "lasttime (sample_session [] []) = 0" "Idle (unix_epoch + 15) (sample_session [] [])"
      "lasttime ?s = 0" "Idle (unix_epoch + 15) ?s"
    using t15 by blast+
  have j: "fst (WritePacket_iter (unix_epoch + 5) ?s) = Ret ()"
    by (simp add: quiet_calls_eval(3))
  show ?thesis
    using a c d i j g h f by simp
qed

end
